theory Spec2Isabelle
  imports Main "HOL-Library.Sublist"
begin

section \<open>Data model of the process manager\<close>

text \<open>
  The embedding follows the \<^verbatim>\<open>ProcessManager\<close> class of the TypeScript source
  (the variant that searches every directory in \<^verbatim>\<open>endProcess\<close>).

  \<^item> \<^verbatim>\<open>ProcessStatus\<close> is the string union \<^verbatim>\<open>"running" | "stopped" | "crashed"\<close>.
  \<^item> \<^verbatim>\<open>ProcessData\<close> is the interface of the same name; the optional fields are options.
  \<^item> A JavaScript object with string keys is an association list in insertion order
    (\<^verbatim>\<open>Object.entries\<close> enumerates non-numeric string keys in insertion order). A
    real object never repeats a key.
  \<^item> Process ids and timestamps are JavaScript numbers holding integers: \<open>int\<close>.
\<close>

datatype ProcessStatus = Running | Stopped | Crashed

record ProcessData =
  pid :: int
  command :: string
  cwd :: string
  status :: ProcessStatus
  startTime :: int
  autoShutdown :: bool
  logFile :: "string option"
  errorOutput :: "string option"

type_synonym 'v obj = "(string \<times> 'v) list"

text \<open>\<^verbatim>\<open>o[k] = v\<close>: an existing key keeps its position, a new key goes last.\<close>

fun obj_set :: "'v obj \<Rightarrow> string \<Rightarrow> 'v \<Rightarrow> 'v obj" where
  "obj_set [] k v = [(k, v)]"
| "obj_set ((k', v') # rest) k v =
     (if k' = k then (k, v) # rest else (k', v') # obj_set rest k v)"

text \<open>\<^verbatim>\<open>delete o[k]\<close>.\<close>

definition obj_delete :: "string \<Rightarrow> 'v obj \<Rightarrow> 'v obj" where
  "obj_delete k xs = filter (\<lambda>e. fst e \<noteq> k) xs"

subsection \<open>Strings, numbers and paths\<close>

text \<open>\<^verbatim>\<open>s.split(c)\<close> for a one-character separator; the empty string gives one empty piece.\<close>

fun split_on :: "char \<Rightarrow> string \<Rightarrow> string list" where
  "split_on c [] = [[]]"
| "split_on c (x # xs) =
     (if x = c then [] # split_on c xs
      else (case split_on c xs of [] \<Rightarrow> [[x]] | w # ws \<Rightarrow> (x # w) # ws))"

text \<open>\<^verbatim>\<open>a.join(sep)\<close>.\<close>

fun join_with :: "string \<Rightarrow> string list \<Rightarrow> string" where
  "join_with sep [] = []"
| "join_with sep [w] = w"
| "join_with sep (w # v # ws) = w @ sep @ join_with sep (v # ws)"

text \<open>
  \<^verbatim>\<open>a.slice(start)\<close>: a negative start counts from the end and is clamped at 0, a
  start beyond the length gives the empty array.
\<close>

definition js_slice_from :: "int \<Rightarrow> 'a list \<Rightarrow> 'a list" where
  "js_slice_from start xs =
     (let n = int (length xs);
          k = (if start < 0 then max (n + start) 0 else min start n)
      in drop (nat k) xs)"

text \<open>Decimal rendering of an integer, as a template literal does for a number.\<close>

definition digit_char :: "nat \<Rightarrow> char" where
  "digit_char n = ''0123456789'' ! n"

fun digits :: "nat \<Rightarrow> string" where
  "digits n = (if n < 10 then [digit_char n] else digits (n div 10) @ [digit_char (n mod 10)])"

declare digits.simps [simp del]

definition show_int :: "int \<Rightarrow> string" where
  "show_int i = (if i < 0 then CHR ''-'' # digits (nat (- i)) else digits (nat i))"

text \<open>\<^verbatim>\<open>path.join(dir, name)\<close> for a normalised directory and a plain file name.\<close>

definition path_join :: "string \<Rightarrow> string \<Rightarrow> string" where
  "path_join dir name = dir @ ''/'' @ name"

definition generateProcessKey :: "string \<Rightarrow> int \<Rightarrow> string" where
  "generateProcessKey cmd now = cmd @ ''_'' @ show_int now"

subsection \<open>The persisted store\<close>

text \<open>
  The store is the JSON document behind \<^verbatim>\<open>this.config\<close>. The manager constructs it with
  the library's defaults, so \<^verbatim>\<open>config.get(key, {})\<close> and \<^verbatim>\<open>config.set(key, value)\<close> take
  their key in dot notation: the key is cut at every \<^verbatim>\<open>.\<close> and the pieces are followed as
  a path of nested objects, while \<^verbatim>\<open>config.store\<close> is the document itself, whose
  \<^verbatim>\<open>Object.entries\<close> are its top-level keys. A directory without a dot is one top-level
  key; the directory \<^verbatim>\<open>/srv/app.v2\<close> is the key \<^verbatim>\<open>v2\<close> inside the object under \<^verbatim>\<open>/srv/app\<close>.

  An object of the document is either a process record (\<open>Rec\<close>) or an object keyed by
  path pieces and process keys (\<open>Dir\<close>). Every read yields a fresh copy, so a snapshot
  and the store do not alias.

  Outside the model: the escape (backslash) and index (bracket) syntax of the path
  notation and the pieces it refuses (\<^verbatim>\<open>__proto__\<close>, \<^verbatim>\<open>prototype\<close>, \<^verbatim>\<open>constructor\<close>); a write
  that fails; and a directory whose path runs into a stored record, that is, a directory
  name continuing with a dot and the process key of a record (there the library reads
  and extends the record object itself, the model reads an empty partition and writes
  a fresh one).
\<close>

datatype node = Rec ProcessData | Dir "(string \<times> node) list"

type_synonym partition = "node obj"
type_synonym ConfigSchema = "node obj"

definition pathSegments :: "string \<Rightarrow> string list" where
  "pathSegments key = split_on CHR ''.'' key"

text \<open>
  The path lookup of \<^verbatim>\<open>get\<close>: each piece but the last must lead to an object to go on;
  the result is absent (\<^verbatim>\<open>undefined\<close>, replaced by the default) otherwise.
\<close>

fun getProperty :: "node obj \<Rightarrow> string list \<Rightarrow> node option" where
  "getProperty xs [] = None"
| "getProperty xs [s] = map_of xs s"
| "getProperty xs (s # t # rest) =
     (case map_of xs s of
        Some (Dir ys) \<Rightarrow> getProperty ys (t # rest)
      | _ \<Rightarrow> None)"

text \<open>
  The path assignment of \<^verbatim>\<open>set\<close>: it walks the pieces, putting an empty object wherever
  the next piece does not lead to an object, and assigns at the last piece.
\<close>

fun setProperty :: "node obj \<Rightarrow> string list \<Rightarrow> node \<Rightarrow> node obj" where
  "setProperty xs [] v = xs"
| "setProperty xs [s] v = obj_set xs s v"
| "setProperty xs (s # t # rest) v =
     obj_set xs s
       (Dir (setProperty (case map_of xs s of Some (Dir ys) \<Rightarrow> ys | _ \<Rightarrow> []) (t # rest) v))"

text \<open>
  \<^verbatim>\<open>Object.entries\<close> of a stored object, as far as the loops of the manager act on
  them: the properties of a record are numbers, strings and booleans, which have no
  \<^verbatim>\<open>pid\<close>, \<^verbatim>\<open>status\<close>, \<^verbatim>\<open>autoShutdown\<close> or \<^verbatim>\<open>logFile\<close>, so no loop does anything with them.
  (A record stands where a loop expects a partition only at the top level of the
  document, where \<^verbatim>\<open>set\<close> never puts one.)
\<close>

definition entriesOf :: "node \<Rightarrow> node obj" where
  "entriesOf n = (case n of Dir ys \<Rightarrow> ys | Rec d \<Rightarrow> [])"

text \<open>\<^verbatim>\<open>config.get(key, {})\<close>, read as the entries of the object it returns.\<close>

definition config_get :: "ConfigSchema \<Rightarrow> string \<Rightarrow> partition" where
  "config_get cfg key =
     (case getProperty cfg (pathSegments key) of None \<Rightarrow> [] | Some n \<Rightarrow> entriesOf n)"

text \<open>\<^verbatim>\<open>config.set(key, object)\<close>.\<close>

definition config_set :: "ConfigSchema \<Rightarrow> string \<Rightarrow> partition \<Rightarrow> ConfigSchema" where
  "config_set cfg key ys = setProperty cfg (pathSegments key) (Dir ys)"

text \<open>
  What the manager reads of an entry \<open>data\<close> of a partition. On a record these are its
  fields. On a nested object \<^verbatim>\<open>data.pid\<close> and \<^verbatim>\<open>data.status\<close> are objects or undefined, never
  the number or the string compared with, and \<^verbatim>\<open>data.autoShutdown\<close> is truthy exactly when
  the object has a property of that name.
\<close>

definition autoShutdownTruthy :: "node \<Rightarrow> bool" where
  "autoShutdownTruthy n =
     (case n of Rec d \<Rightarrow> autoShutdown d | Dir ys \<Rightarrow> map_of ys ''autoShutdown'' \<noteq> None)"

definition statusRunning :: "node \<Rightarrow> bool" where
  "statusRunning n = (case n of Rec d \<Rightarrow> status d = Running | Dir ys \<Rightarrow> False)"

text \<open>
  The registry as the manager rooted at directory \<open>c\<close> reads it: the record under
  process key \<open>k\<close> of \<^verbatim>\<open>config.get(c, {})\<close>.
\<close>

definition lookup2 :: "ConfigSchema \<Rightarrow> string \<Rightarrow> string \<Rightarrow> ProcessData option" where
  "lookup2 cfg c k = (case map_of (config_get cfg c) k of Some (Rec d) \<Rightarrow> Some d | _ \<Rightarrow> None)"

text \<open>
  A well-formed document: no object repeats a key, and no object that is not a record
  has a property \<^verbatim>\<open>autoShutdown\<close> (keys are path pieces of directories and process keys
  of the form \<^verbatim>\<open>command_timestamp\<close>).
\<close>

fun wf_node :: "node \<Rightarrow> bool" where
  "wf_node (Rec d) = True"
| "wf_node (Dir ys) =
     (distinct (map fst ys) \<and> ''autoShutdown'' \<notin> set (map fst ys)
      \<and> list_all wf_node (map snd ys))"

definition wf_config :: "ConfigSchema \<Rightarrow> bool" where
  "wf_config cfg = wf_node (Dir cfg)"

text \<open>
  A flat registry: every top-level key is a non-empty directory without a dot, and its
  object holds process records under distinct non-empty keys. This is the shape
  \<^verbatim>\<open>ConfigSchema\<close> declares, and the one the managers of directories without a dot keep.
\<close>

definition flat_partition :: "node \<Rightarrow> bool" where
  "flat_partition n =
     (case n of
        Rec d \<Rightarrow> False
      | Dir ys \<Rightarrow> distinct (map fst ys) \<and> [] \<notin> set (map fst ys)
                   \<and> list_all (\<lambda>e. case snd e of Rec d \<Rightarrow> True | Dir zs \<Rightarrow> False) ys)"

definition flat_store :: "ConfigSchema \<Rightarrow> bool" where
  "flat_store cfg =
     (distinct (map fst cfg) \<and> [] \<notin> set (map fst cfg)
      \<and> list_all (\<lambda>e. pathSegments (fst e) = [fst e] \<and> flat_partition (snd e)) cfg)"

text \<open>
  The manager instance: the persisted store, the in-memory table of attached child
  processes (only the presence of a handle for a pid matters), the directory the
  instance is rooted at, and the log directory.
\<close>

record Manager =
  config :: ConfigSchema
  runningProcesses :: "int set"
  currentCwd :: string
  logDir :: string

text \<open>
  The operating system as the manager observes it during one call:
  \<open>probe p\<close> is true when \<^verbatim>\<open>process.kill(p, 0)\<close> returns without throwing,
  \<open>killByPid p\<close> when \<^verbatim>\<open>process.kill(p, "SIGTERM")\<close> does, and
  \<open>killHandle p\<close> when \<^verbatim>\<open>runningProcess.kill("SIGTERM")\<close> on the handle of \<open>p\<close> does.
\<close>

record OS =
  probe :: "int \<Rightarrow> bool"
  killByPid :: "int \<Rightarrow> bool"
  killHandle :: "int \<Rightarrow> bool"

subsection \<open>Store helpers\<close>

text \<open>\<^verbatim>\<open>cwd || this.currentCwd\<close>: an absent or empty argument falls back.\<close>

definition targetCwd :: "Manager \<Rightarrow> string option \<Rightarrow> string" where
  "targetCwd m c = (case c of None \<Rightarrow> currentCwd m
                    | Some d \<Rightarrow> if d = [] then currentCwd m else d)"

definition storeProcessData :: "Manager \<Rightarrow> string \<Rightarrow> ProcessData \<Rightarrow> string option \<Rightarrow> Manager" where
  "storeProcessData m k d c =
     (let t = targetCwd m c; cfg = config_get (config m) t
      in m\<lparr>config := config_set (config m) t (obj_set cfg k (Rec d))\<rparr>)"

text \<open>\<^verbatim>\<open>if (config[processKey])\<close>: an object, record or not, is truthy.\<close>

definition updateProcessData :: "Manager \<Rightarrow> string \<Rightarrow> ProcessData \<Rightarrow> string option \<Rightarrow> Manager" where
  "updateProcessData m k d c =
     (let t = targetCwd m c; cfg = config_get (config m) t
      in if map_of cfg k \<noteq> None
         then m\<lparr>config := config_set (config m) t (obj_set cfg k (Rec d))\<rparr>
         else m)"

definition removeProcessData :: "Manager \<Rightarrow> string \<Rightarrow> string option \<Rightarrow> Manager" where
  "removeProcessData m k c =
     (let t = targetCwd m c; cfg = config_get (config m) t
      in m\<lparr>config := config_set (config m) t (obj_delete k cfg)\<rparr>)"

definition getCurrentCwdProcesses :: "Manager \<Rightarrow> partition" where
  "getCurrentCwdProcesses m = config_get (config m) (currentCwd m)"

subsection \<open>endProcess\<close>

text \<open>
  The inner loop: the first entry of a partition whose \<^verbatim>\<open>pid\<close> is the number looked for.
\<close>

fun findInPartition :: "int \<Rightarrow> partition \<Rightarrow> (string \<times> ProcessData) option" where
  "findInPartition p [] = None"
| "findInPartition p ((k, n) # rest) =
     (case n of
        Rec d \<Rightarrow> if pid d = p then Some (k, d) else findInPartition p rest
      | Dir ys \<Rightarrow> findInPartition p rest)"

text \<open>
  The outer loop over \<^verbatim>\<open>Object.entries(this.config.store)\<close>, the top-level keys of the
  document; it stops at the first one with a match.
\<close>

fun findByPid :: "int \<Rightarrow> ConfigSchema \<Rightarrow> (string \<times> string \<times> ProcessData) option" where
  "findByPid p [] = None"
| "findByPid p ((c, n) # rest) =
     (case findInPartition p (entriesOf n) of
        Some (k, d) \<Rightarrow> Some (c, k, d)
      | None \<Rightarrow> findByPid p rest)"

text \<open>
  Whether the SIGTERM for \<open>p\<close> is accepted, that is, the call that sends it returns
  without throwing: it goes through the handle when one is tracked for \<open>p\<close>, directly
  to the pid otherwise.
\<close>

definition termAccepted :: "OS \<Rightarrow> Manager \<Rightarrow> int \<Rightarrow> bool" where
  "termAccepted os m p = (if p \<in> runningProcesses m then killHandle os p else killByPid os p)"

text \<open>
  The \<^verbatim>\<open>try\<close> block that sends SIGTERM: through the handle when one is tracked (the
  handle is dropped when the call returns), directly by pid otherwise. A throw in
  either call leaves \<^verbatim>\<open>killSuccess\<close> false.
\<close>

definition sendTerm :: "OS \<Rightarrow> Manager \<Rightarrow> int \<Rightarrow> Manager \<times> bool" where
  "sendTerm os m p =
     (if p \<in> runningProcesses m
      then (if killHandle os p
            then (m\<lparr>runningProcesses := runningProcesses m - {p}\<rparr>, True)
            else (m, False))
      else (m, killByPid os p))"

definition endProcess :: "OS \<Rightarrow> Manager \<Rightarrow> int \<Rightarrow> Manager \<times> bool" where
  "endProcess os m p =
     (case findByPid p (config m) of
        None \<Rightarrow> (m, False)
      | Some (c, k, d) \<Rightarrow>
          if k = [] \<or> c = [] then (m, False)
          else
            let processIsAlive = probe os (pid d);
                (m1, killSuccess) =
                  (if processIsAlive then sendTerm os m (pid d) else (m, False))
            in (removeProcessData m1 k (Some c), killSuccess \<or> \<not> processIsAlive))"

subsection \<open>checkProcessHealth\<close>

text \<open>
  The body of the monitoring loop for the snapshot entry \<open>(k, data)\<close>: a record marked
  running whose probe throws is written back as stopped (only if the key is still
  present), and the handle of its pid is dropped.
\<close>

definition healthStep :: "OS \<Rightarrow> string \<Rightarrow> node \<Rightarrow> Manager \<Rightarrow> Manager" where
  "healthStep os k n m =
     (case n of
        Dir ys \<Rightarrow> m
      | Rec d \<Rightarrow>
          if status d = Running
          then (if probe os (pid d) then m
                else (let m1 = updateProcessData m k (d\<lparr>status := Stopped\<rparr>) None
                      in m1\<lparr>runningProcesses := runningProcesses m1 - {pid d}\<rparr>))
          else m)"

fun healthLoop :: "OS \<Rightarrow> partition \<Rightarrow> Manager \<Rightarrow> Manager" where
  "healthLoop os [] m = m"
| "healthLoop os ((k, n) # rest) m = healthLoop os rest (healthStep os k n m)"

definition checkProcessHealth :: "OS \<Rightarrow> Manager \<Rightarrow> Manager" where
  "checkProcessHealth os m = healthLoop os (getCurrentCwdProcesses m) m"

subsection \<open>cleanupStaleAutoShutdownProcesses and the constructor\<close>

text \<open>
  The body of the inner loop, for the entry \<open>(k, data)\<close> found under the top-level key
  \<open>c\<close>. The probe of an entry that is not a record throws (its \<^verbatim>\<open>pid\<close> is no number), which
  counts as not alive. The deletion goes through \<^verbatim>\<open>get\<close> and \<^verbatim>\<open>set\<close> with the key \<open>c\<close>.
\<close>

definition staleStep :: "OS \<Rightarrow> string \<Rightarrow> string \<Rightarrow> node \<Rightarrow> ConfigSchema \<Rightarrow> ConfigSchema" where
  "staleStep os c k n cfg =
     (if autoShutdownTruthy n
      then (let isAlive = (case n of Rec d \<Rightarrow> probe os (pid d) | Dir ys \<Rightarrow> False)
            in if \<not> isAlive \<or> \<not> statusRunning n
               then config_set cfg c (obj_delete k (config_get cfg c))
               else cfg)
      else cfg)"

fun staleInner :: "OS \<Rightarrow> string \<Rightarrow> partition \<Rightarrow> ConfigSchema \<Rightarrow> ConfigSchema" where
  "staleInner os c [] cfg = cfg"
| "staleInner os c ((k, n) # rest) cfg = staleInner os c rest (staleStep os c k n cfg)"

fun staleOuter :: "OS \<Rightarrow> ConfigSchema \<Rightarrow> ConfigSchema \<Rightarrow> ConfigSchema" where
  "staleOuter os [] cfg = cfg"
| "staleOuter os ((c, n) # rest) cfg = staleOuter os rest (staleInner os c (entriesOf n) cfg)"

definition cleanupStaleAutoShutdownProcesses :: "OS \<Rightarrow> Manager \<Rightarrow> Manager" where
  "cleanupStaleAutoShutdownProcesses os m = m\<lparr>config := staleOuter os (config m) (config m)\<rparr>"

text \<open>\<^verbatim>\<open>a || b\<close> on optional strings: an absent or empty string is falsy.\<close>

definition or_else :: "string option \<Rightarrow> string \<Rightarrow> string" where
  "or_else a b = (case a of None \<Rightarrow> b | Some x \<Rightarrow> if x = [] then b else x)"

text \<open>
  The constructor, given the persisted store it opens, its \<^verbatim>\<open>cwd\<close> argument,
  \<^verbatim>\<open>process.env.CWD\<close>, \<^verbatim>\<open>process.cwd()\<close> and the log directory: it runs the stale-record
  clean-up once, before monitoring starts.
\<close>

definition newManager ::
  "OS \<Rightarrow> ConfigSchema \<Rightarrow> string option \<Rightarrow> string option \<Rightarrow> string \<Rightarrow> string \<Rightarrow> Manager" where
  "newManager os store cwdArg envC processCwd logs =
     cleanupStaleAutoShutdownProcesses os
       \<lparr>config = store, runningProcesses = {},
        currentCwd = or_else cwdArg (or_else envC processCwd), logDir = logs\<rparr>"

subsection \<open>cleanup\<close>

text \<open>
  The body of the loop for the snapshot entry \<open>(k, data)\<close>. The kill attempt sits in a
  \<^verbatim>\<open>try\<close> whose \<^verbatim>\<open>catch\<close> is empty, and it does not touch the handle table: whatever
  the signal does, the manager's state is the same afterwards.
\<close>

definition cleanupStep :: "OS \<Rightarrow> string \<Rightarrow> node \<Rightarrow> Manager \<Rightarrow> Manager" where
  "cleanupStep os k n m =
     (if autoShutdownTruthy n
      then (let sent = (case n of
                          Rec d \<Rightarrow> if status d = Running then termAccepted os m (pid d) else False
                        | Dir ys \<Rightarrow> False)
            in removeProcessData m k None)
      else m)"

fun cleanupLoop :: "OS \<Rightarrow> partition \<Rightarrow> Manager \<Rightarrow> Manager" where
  "cleanupLoop os [] m = m"
| "cleanupLoop os ((k, n) # rest) m = cleanupLoop os rest (cleanupStep os k n m)"

definition cleanup :: "OS \<Rightarrow> Manager \<Rightarrow> Manager" where
  "cleanup os m = cleanupLoop os (getCurrentCwdProcesses m) m"

subsection \<open>Listing\<close>

definition composite_key :: "string \<Rightarrow> string \<Rightarrow> string" where
  "composite_key c k = c @ ''::'' @ k"

fun addPartition :: "string \<Rightarrow> partition \<Rightarrow> node obj \<Rightarrow> node obj" where
  "addPartition c [] res = res"
| "addPartition c ((k, n) # rest) res = addPartition c rest (obj_set res (composite_key c k) n)"

fun getAllLoop :: "ConfigSchema \<Rightarrow> node obj \<Rightarrow> node obj" where
  "getAllLoop [] res = res"
| "getAllLoop ((c, n) # rest) res = getAllLoop rest (addPartition c (entriesOf n) res)"

definition getAllProcesses :: "Manager \<Rightarrow> node obj" where
  "getAllProcesses m = getAllLoop (config m) []"

text \<open>\<^verbatim>\<open>path.sep\<close> on POSIX.\<close>

definition path_sep :: string where
  "path_sep = ''/''"

text \<open>\<^verbatim>\<open>shouldInclude\<close> as the loop body computes it; \<^verbatim>\<open>startsWith\<close> is \<open>prefix\<close>.\<close>

definition shouldInclude :: "bool \<Rightarrow> string \<Rightarrow> string \<Rightarrow> bool" where
  "shouldInclude includeSubdirectories t c =
     (if includeSubdirectories then c = t \<or> prefix (t @ path_sep) c else c = t)"

fun inDirLoop :: "bool \<Rightarrow> string \<Rightarrow> ConfigSchema \<Rightarrow> node obj \<Rightarrow> node obj" where
  "inDirLoop inc t [] res = res"
| "inDirLoop inc t ((c, n) # rest) res =
     inDirLoop inc t rest (if shouldInclude inc t c then addPartition c (entriesOf n) res else res)"

definition getAllProcessesInDirectory :: "Manager \<Rightarrow> bool \<Rightarrow> node obj" where
  "getAllProcessesInDirectory m includeSubdirectories =
     inDirLoop includeSubdirectories (currentCwd m) (config m) []"

subsection \<open>getProcessLogs\<close>

text \<open>
  The file system as \<^verbatim>\<open>existsSync\<close> and \<^verbatim>\<open>readFile\<close> see it: a path is absent, or
  holds text, or exists and cannot be read (\<^verbatim>\<open>readFile\<close> rejects with the message).
\<close>

datatype File = Content string | ReadError string

type_synonym FS = "string \<Rightarrow> File option"

definition newline :: char where
  "newline = CHR 0x0A"

text \<open>\<^verbatim>\<open>data.pid === pid && data.logFile\<close> over the values of the listing.\<close>

fun findLogFile :: "int \<Rightarrow> node list \<Rightarrow> string option" where
  "findLogFile p [] = None"
| "findLogFile p (n # rest) =
     (case n of
        Dir ys \<Rightarrow> findLogFile p rest
      | Rec d \<Rightarrow>
          if pid d = p \<and> logFile d \<noteq> None \<and> logFile d \<noteq> Some []
          then logFile d else findLogFile p rest)"

definition nonEmptyLines :: "string \<Rightarrow> string list" where
  "nonEmptyLines content = filter (\<lambda>line. line \<noteq> []) (split_on newline content)"

definition getProcessLogs :: "FS \<Rightarrow> Manager \<Rightarrow> int \<Rightarrow> int \<Rightarrow> string" where
  "getProcessLogs fs m p tailLength =
     (case findLogFile p (map snd (getAllProcesses m)) of
        None \<Rightarrow> ''No logs available for this process''
      | Some f \<Rightarrow>
          (case fs f of
             None \<Rightarrow> ''No logs available for this process''
           | Some (ReadError e) \<Rightarrow> ''Error reading logs: '' @ e
           | Some (Content content) \<Rightarrow>
               join_with [newline] (js_slice_from (- tailLength) (nonEmptyLines content))))"

subsection \<open>startProcess\<close>

definition getLogFilePath :: "Manager \<Rightarrow> int \<Rightarrow> string" where
  "getLogFilePath m n = path_join (logDir m) (''process_'' @ show_int n @ ''.log'')"

text \<open>
  What one call of \<^verbatim>\<open>startProcess\<close> reads from its surroundings:
  \<^verbatim>\<open>process.env.CWD\<close>; the values of the successive \<^verbatim>\<open>Date.now()\<close> calls (for the process
  key, for the temporary log name of the detached branch, for \<^verbatim>\<open>startTime\<close>);
  \<^verbatim>\<open>path.resolve\<close>; whether \<^verbatim>\<open>openSync\<close> throws; and what \<^verbatim>\<open>execa\<close> does: it throws, or it
  returns a child whose \<^verbatim>\<open>pid\<close> may be undefined.
  The \<^verbatim>\<open>exit\<close> and rejection handlers registered on the child run after the call
  has returned and are not part of its effect.
\<close>

datatype SpawnResult = SpawnThrew string | Spawned "int option"

record StartEnv =
  envCWD :: "string option"
  nowKey :: int
  nowTemp :: int
  nowStart :: int
  pathResolve :: "string \<Rightarrow> string \<Rightarrow> string"
  openThrows :: "string option"
  spawnResult :: SpawnResult

definition baseCwd :: "StartEnv \<Rightarrow> Manager \<Rightarrow> string" where
  "baseCwd env m = or_else (envCWD env) (currentCwd m)"

definition workingDir :: "StartEnv \<Rightarrow> Manager \<Rightarrow> string option \<Rightarrow> string" where
  "workingDir env m cwdArg =
     (case cwdArg of
        None \<Rightarrow> baseCwd env m
      | Some c \<Rightarrow> if c = [] then baseCwd env m else pathResolve env (baseCwd env m) c)"

definition startFailure :: "Manager \<Rightarrow> string \<Rightarrow> Manager \<times> (string + int)" where
  "startFailure m e = (m, Inl (''Failed to start process: '' @ e))"

definition noPidMessage :: string where
  "noPidMessage = ''Error: Failed to start process: No PID returned''"

text \<open>The tail of the \<^verbatim>\<open>try\<close> block, reached only with a pid: track the handle, store the record.\<close>

definition finishStart ::
  "StartEnv \<Rightarrow> Manager \<Rightarrow> string \<Rightarrow> string \<Rightarrow> string \<Rightarrow> bool \<Rightarrow> int \<Rightarrow> string
     \<Rightarrow> Manager \<times> (string + int)" where
  "finishStart env m processKey cmd wd autoSd p actualLogFilePath =
     (let m1 = m\<lparr>runningProcesses := insert p (runningProcesses m)\<rparr>;
          processData = \<lparr>pid = p, command = cmd, cwd = wd, status = Running,
                         startTime = nowStart env, autoShutdown = autoSd,
                         logFile = Some actualLogFilePath, errorOutput = None\<rparr>
      in (storeProcessData m1 processKey processData None, Inr p))"

text \<open>\<^verbatim>\<open>execa(...)\<close> followed by \<^verbatim>\<open>if (!childProcess.pid) throw\<close>; \<open>k\<close> continues with the pid.\<close>

definition withPid ::
  "StartEnv \<Rightarrow> Manager \<Rightarrow> (int \<Rightarrow> Manager \<times> (string + int)) \<Rightarrow> Manager \<times> (string + int)" where
  "withPid env m k =
     (case spawnResult env of
        SpawnThrew e \<Rightarrow> startFailure m e
      | Spawned None \<Rightarrow> startFailure m noPidMessage
      | Spawned (Some p) \<Rightarrow> if p = 0 then startFailure m noPidMessage else k p)"

definition startProcess ::
  "StartEnv \<Rightarrow> Manager \<Rightarrow> string \<Rightarrow> bool \<Rightarrow> string option \<Rightarrow> Manager \<times> (string + int)" where
  "startProcess env m cmd autoSd cwdArg =
     (let processKey = generateProcessKey cmd (nowKey env);
          wd = workingDir env m cwdArg
      in if \<not> autoSd
         then (let actualLogFilePath = getLogFilePath m (nowTemp env)
               in case openThrows env of
                    Some e \<Rightarrow> startFailure m e
                  | None \<Rightarrow>
                      withPid env m
                        (\<lambda>p. finishStart env m processKey cmd wd autoSd p actualLogFilePath))
         else withPid env m
                (\<lambda>p. finishStart env m processKey cmd wd autoSd p (getLogFilePath m p)))"

section \<open>Concrete states used in the examples\<close>

definition rec_sleep :: ProcessData where
  "rec_sleep = \<lparr>pid = 4242, command = ''sleep 60'', cwd = ''/work'', status = Running,
     startTime = 1700000000000, autoShutdown = False,
     logFile = Some ''/home/u/logs/process_1700000000000.log'', errorOutput = None\<rparr>"

definition rec_web :: ProcessData where
  "rec_web = \<lparr>pid = 77, command = ''npm start'', cwd = ''/srv/web'', status = Running,
     startTime = 1700000000500, autoShutdown = True,
     logFile = Some ''/home/u/logs/process_77.log'', errorOutput = None\<rparr>"

definition rec_done :: ProcessData where
  "rec_done = \<lparr>pid = 90, command = ''make'', cwd = ''/work'', status = Stopped,
     startTime = 1700000000900, autoShutdown = True,
     logFile = Some ''/home/u/logs/process_90.log'', errorOutput = None\<rparr>"

text \<open>A manager rooted at \<open>/work\<close> whose store also holds a partition of another directory.\<close>

definition mgr_two :: Manager where
  "mgr_two = \<lparr>config = [(''/work'', Dir [(''sleep 60_1700000000000'', Rec rec_sleep),
                                         (''make_1700000000900'', Rec rec_done)]),
                        (''/srv/web'', Dir [(''npm start_1700000000500'', Rec rec_web)])],
     runningProcesses = {}, currentCwd = ''/work'', logDir = ''/home/u/logs''\<rparr>"


text \<open>No probed process is alive.\<close>

definition os_all_dead :: OS where
  "os_all_dead = \<lparr>probe = (\<lambda>p. False), killByPid = (\<lambda>p. False), killHandle = (\<lambda>p. False)\<rparr>"

text \<open>
  \<^verbatim>\<open>path.resolve(base, p)\<close> for POSIX paths that are already in normal form, \<open>p\<close>
  without \<^verbatim>\<open>.\<close> and \<^verbatim>\<open>..\<close> segments: an absolute \<open>p\<close> is the result, a relative one is
  appended to \<open>base\<close>.
\<close>

definition posix_resolve :: "string \<Rightarrow> string \<Rightarrow> string" where
  "posix_resolve base p = (if prefix ''/'' p then p else base @ ''/'' @ p)"

text \<open>A manager rooted at \<open>/home/u/project\<close> with an empty store.\<close>

definition mgr_fresh :: Manager where
  "mgr_fresh = \<lparr>config = [], runningProcesses = {}, currentCwd = ''/home/u/project'',
     logDir = ''/home/u/logs''\<rparr>"

text \<open>A call in which the spawn yields pid 4321, and one in which it yields no pid.\<close>

definition env_spawned :: StartEnv where
  "env_spawned = \<lparr>envCWD = None, nowKey = 1700000000000, nowTemp = 1700000000007,
     nowStart = 1700000000012, pathResolve = posix_resolve, openThrows = None,
     spawnResult = Spawned (Some 4321)\<rparr>"

definition env_no_pid :: StartEnv where
  "env_no_pid = \<lparr>envCWD = None, nowKey = 1700000000000, nowTemp = 1700000000007,
     nowStart = 1700000000012, pathResolve = posix_resolve, openThrows = None,
     spawnResult = Spawned None\<rparr>"

text \<open>A log file of ten lines \<open>L1\<close> to \<open>L10\<close>, each ended by a newline.\<close>

definition ten_lines :: "string list" where
  "ten_lines = [''L1'', ''L2'', ''L3'', ''L4'', ''L5'', ''L6'', ''L7'', ''L8'', ''L9'', ''L10'']"

definition log_text :: string where
  "log_text = concat (map (\<lambda>l. l @ [newline]) ten_lines)"

definition fs_log :: FS where
  "fs_log = (\<lambda>path. if path = ''/home/u/logs/process_77.log'' then Some (Content log_text) else None)"

text \<open>A manager rooted at the file-system root, with one partition below it.\<close>

definition rec_api :: ProcessData where
  "rec_api = \<lparr>pid = 510, command = ''node api.js'', cwd = ''/a'', status = Running,
     startTime = 1700000000100, autoShutdown = False,
     logFile = Some ''/home/u/logs/process_1700000000099.log'', errorOutput = None\<rparr>"

definition mgr_root :: Manager where
  "mgr_root = \<lparr>config = [(''/a'', Dir [(''node api.js_1700000000100'', Rec rec_api)])],
     runningProcesses = {}, currentCwd = ''/'', logDir = ''/home/u/logs''\<rparr>"

text \<open>
  A manager rooted at a directory whose name contains a dot, \<open>/home/u/proj.v2\<close>, with an
  empty store; the record it stores when it starts \<^verbatim>\<open>sleep 1\<close> as pid 4321; and the
  manager after that start, as the constructor of a later run finds its store.
\<close>

definition mgr_dotted :: Manager where
  "mgr_dotted = \<lparr>config = [], runningProcesses = {}, currentCwd = ''/home/u/proj.v2'',
     logDir = ''/home/u/logs''\<rparr>"

definition rec_dotted :: ProcessData where
  "rec_dotted = \<lparr>pid = 4321, command = ''sleep 1'', cwd = ''/home/u/proj.v2'', status = Running,
     startTime = 1700000000012, autoShutdown = True,
     logFile = Some ''/home/u/logs/process_4321.log'', errorOutput = None\<rparr>"

definition store_dotted :: ConfigSchema where
  "store_dotted = [(''/home/u/proj'', Dir [(''v2'', Dir [(''sleep 1_1700000000000'', Rec rec_dotted)])])]"

definition mgr_dotted_started :: Manager where
  "mgr_dotted_started = fst (startProcess env_spawned mgr_dotted ''sleep 1'' True None)"

text \<open>
  A store written without dot notation: its one top-level key is the directory
  \<open>/srv/app.v2\<close> itself.
\<close>

definition rec_app :: ProcessData where
  "rec_app = \<lparr>pid = 88, command = ''node app.js'', cwd = ''/srv/app.v2'', status = Stopped,
     startTime = 1700000000700, autoShutdown = True,
     logFile = Some ''/home/u/logs/process_88.log'', errorOutput = None\<rparr>"

definition mgr_seeded :: Manager where
  "mgr_seeded = \<lparr>config = [(''/srv/app.v2'', Dir [(''node app.js_1700000000700'', Rec rec_app)])],
     runningProcesses = {}, currentCwd = ''/work'', logDir = ''/home/u/logs''\<rparr>"

section \<open>Properties named by the specification\<close>


text \<open>The last \<open>n\<close> elements of a list, in their order.\<close>

definition last_n :: "nat \<Rightarrow> 'a list \<Rightarrow> 'a list" where
  "last_n n xs = drop (length xs - n) xs"

text \<open>
  A directory \<open>d\<close> lies strictly below \<open>t\<close> when the directory names along \<open>t\<close> are a
  proper initial part of those along \<open>d\<close>.
\<close>

definition segments :: "string \<Rightarrow> string list" where
  "segments p = filter (\<lambda>s. s \<noteq> []) (split_on CHR ''/'' p)"

definition is_descendant :: "string \<Rightarrow> string \<Rightarrow> bool" where
  "is_descendant t d = strict_prefix (segments t) (segments d)"

text \<open>
  Absolute paths in normal form other than the root, given by their directory names:
  \<open>path_of [a, b]\<close> is \<open>/a/b\<close>.
\<close>

definition path_of :: "string list \<Rightarrow> string" where
  "path_of segs = concat (map (\<lambda>s. CHR ''/'' # s) segs)"

definition seg_ok :: "string \<Rightarrow> bool" where
  "seg_ok s = (s \<noteq> [] \<and> CHR ''/'' \<notin> set s)"

section \<open>Views of the store used in the proofs\<close>

text \<open>The record, if it is one, that an entry holds; and the record under key \<open>k\<close> of the
  object at a path.\<close>

definition recOf :: "node option \<Rightarrow> ProcessData option" where
  "recOf x = (case x of Some (Rec d) \<Rightarrow> Some d | _ \<Rightarrow> None)"

definition viewAt :: "node obj \<Rightarrow> string list \<Rightarrow> string \<Rightarrow> ProcessData option" where
  "viewAt xs path k = (case getProperty xs path of Some (Dir ys) \<Rightarrow> recOf (map_of ys k) | _ \<Rightarrow> None)"

section \<open>Facts about objects and the store\<close>

lemma digits_small: "n < 10 \<Longrightarrow> digits n = [digit_char n]"
  by (subst digits.simps) simp

lemma digits_large: "\<not> n < 10 \<Longrightarrow> digits n = digits (n div 10) @ [digit_char (n mod 10)]"
  by (subst digits.simps) simp

lemmas show_int_eval = show_int_def digits_small digits_large digit_char_def

lemma map_of_obj_set: "map_of (obj_set xs k v) = (map_of xs)(k \<mapsto> v)"
  by (induction xs) (auto simp: fun_eq_iff)

lemma map_of_obj_delete: "map_of (obj_delete k xs) = (map_of xs)(k := None)"
  by (induction xs) (auto simp: obj_delete_def fun_eq_iff)

subsection \<open>Keys in dot notation\<close>

lemma split_on_nonempty: "split_on c s \<noteq> []"
  by (induction s) (auto split: list.splits)

lemma join_with_Cons: "join_with sep ((x # w) # ws) = x # join_with sep (w # ws)"
  by (cases ws) simp_all

lemma join_with_Nil_Cons: "ws \<noteq> [] \<Longrightarrow> join_with sep ([] # ws) = sep @ join_with sep ws"
  by (cases ws) simp_all

lemma join_split_on: "join_with [c] (split_on c s) = s"
proof (induction s)
  case Nil
  show ?case by simp
next
  case (Cons x xs)
  show ?case
  proof (cases "x = c")
    case True
    then show ?thesis using Cons by (simp add: join_with_Nil_Cons split_on_nonempty)
  next
    case False
    obtain w ws where e: "split_on c xs = w # ws"
      using split_on_nonempty [of c xs] by (cases "split_on c xs") auto
    with False Cons show ?thesis by (simp add: join_with_Cons)
  qed
qed

lemma pathSegments_inj: "(pathSegments a = pathSegments b) = (a = b)"
proof
  assume "pathSegments a = pathSegments b"
  then have "join_with ''.'' (split_on CHR ''.'' a) = join_with ''.'' (split_on CHR ''.'' b)"
    by (simp add: pathSegments_def)
  then show "a = b" by (simp only: join_split_on)
qed simp

lemma pathSegments_nonempty: "pathSegments a \<noteq> []"
  by (simp add: pathSegments_def split_on_nonempty)

lemma split_on_no_sep: "c \<notin> set a \<Longrightarrow> split_on c a = [a]"
  by (induction a) auto


subsection \<open>Reading after writing\<close>

lemma getProperty_setProperty_same: "P \<noteq> [] \<Longrightarrow> getProperty (setProperty xs P v) P = Some v"
  by (induction xs P v rule: setProperty.induct) (simp_all add: map_of_obj_set)

lemma recOf_simps [simp]:
  "recOf None = None" "recOf (Some (Rec d)) = Some d" "recOf (Some (Dir ys)) = None"
  by (simp_all add: recOf_def)

lemma lookup2_viewAt: "lookup2 cfg c k = viewAt cfg (pathSegments c) k"
  by (simp add: lookup2_def viewAt_def config_get_def entriesOf_def recOf_def
      split: option.splits node.splits)

lemma viewAt_agree:
  assumes a: "\<And>s zs. map_of ys s = Some (Dir zs) \<Longrightarrow> map_of ys' s = Some (Dir zs)"
    and b: "\<And>s zs. map_of ys' s = Some (Dir zs) \<Longrightarrow> map_of ys s = Some (Dir zs)"
    and R: "R \<noteq> []"
  shows "viewAt ys' R k = viewAt ys R k"
proof -
  have eqv: "(map_of ys' s = Some (Dir zs)) = (map_of ys s = Some (Dir zs))" for s zs
    using a b by blast
  have d: "(case map_of ys' s of None \<Rightarrow> g | Some (Rec r) \<Rightarrow> g | Some (Dir zs) \<Rightarrow> f zs)
             = (case map_of ys s of None \<Rightarrow> g | Some (Rec r) \<Rightarrow> g | Some (Dir zs) \<Rightarrow> f zs)"
    for f :: "node obj \<Rightarrow> 'a" and g s
  proof (cases "\<exists>zs. map_of ys s = Some (Dir zs)")
    case True
    then obtain zs where z: "map_of ys s = Some (Dir zs)" by blast
    then have "map_of ys' s = Some (Dir zs)" by (simp add: eqv)
    with z show ?thesis by simp
  next
    case False
    then have n: "\<And>zs. map_of ys s \<noteq> Some (Dir zs)" by blast
    then have n': "\<And>zs. map_of ys' s \<noteq> Some (Dir zs)" by (simp add: eqv)
    have "(case map_of ys s of None \<Rightarrow> g | Some (Rec r) \<Rightarrow> g | Some (Dir zs) \<Rightarrow> f zs) = g"
      using n by (cases "map_of ys s") (auto split: node.splits)
    moreover have "(case map_of ys' s of None \<Rightarrow> g | Some (Rec r) \<Rightarrow> g | Some (Dir zs) \<Rightarrow> f zs) = g"
      using n' by (cases "map_of ys' s") (auto split: node.splits)
    ultimately show ?thesis by simp
  qed
  show ?thesis
  proof (cases R)
    case Nil
    with R show ?thesis by simp
  next
    case (Cons r rest)
    show ?thesis
    proof (cases rest)
      case Nil
      with Cons show ?thesis by (simp add: viewAt_def d)
    next
      case (Cons t more)
      with \<open>R = r # rest\<close> show ?thesis by (simp add: viewAt_def d)
    qed
  qed
qed

lemma recOf_setProperty_below:
  assumes "getProperty zs (t # rest) = Some (Dir ys)"
  shows "recOf (map_of (setProperty zs (t # rest) (Dir ys')) k) = recOf (map_of zs k)"
proof (cases rest)
  case Nil
  with assms show ?thesis by (simp add: map_of_obj_set)
next
  case (Cons u more)
  with assms show ?thesis
    by (auto simp: map_of_obj_set split: option.splits node.splits)
qed

lemma viewAt_setProperty_other:
  assumes "getProperty xs P = Some (Dir ys)"
    and "\<And>s zs. map_of ys s = Some (Dir zs) \<Longrightarrow> map_of ys' s = Some (Dir zs)"
    and "\<And>s zs. map_of ys' s = Some (Dir zs) \<Longrightarrow> map_of ys s = Some (Dir zs)"
    and "Q \<noteq> P"
  shows "viewAt (setProperty xs P (Dir ys')) Q k = viewAt xs Q k"
  using assms(1,4)
proof (induction xs P "Dir ys'" arbitrary: Q rule: setProperty.induct)
  case (1 xs)
  then show ?case by simp
next
  case (2 xs s)
  then have m: "map_of xs s = Some (Dir ys)" by simp
  show ?case
  proof (cases Q)
    case Nil
    then show ?thesis by (simp add: viewAt_def)
  next
    case (Cons q rest)
    show ?thesis
    proof (cases rest)
      case Nil
      with Cons 2 have "q \<noteq> s" by simp
      with Cons Nil show ?thesis by (simp add: viewAt_def map_of_obj_set)
    next
      case (Cons t more)
      show ?thesis
      proof (cases "q = s")
        case False
        with Cons \<open>Q = q # rest\<close> show ?thesis by (simp add: viewAt_def map_of_obj_set)
      next
        case True
        have "viewAt ys' (t # more) k = viewAt ys (t # more) k"
          by (rule viewAt_agree [OF assms(2,3)]) simp_all
        with True Cons \<open>Q = q # rest\<close> m show ?thesis
          by (simp add: viewAt_def map_of_obj_set)
      qed
    qed
  qed
next
  case (3 xs s t rest)
  from "3.prems"(1) obtain zs where m: "map_of xs s = Some (Dir zs)"
    and g: "getProperty zs (t # rest) = Some (Dir ys)"
    by (auto split: option.splits node.splits)
  show ?case
  proof (cases Q)
    case Nil
    then show ?thesis by (simp add: viewAt_def)
  next
    case (Cons q qs)
    show ?thesis
    proof (cases "q = s")
      case False
      with Cons show ?thesis
        by (cases qs) (simp_all add: viewAt_def map_of_obj_set)
    next
      case True
      show ?thesis
      proof (cases qs)
        case Nil
        with True Cons m show ?thesis
          by (simp add: viewAt_def map_of_obj_set recOf_setProperty_below [OF g])
      next
        case (Cons u more)
        with True \<open>Q = q # qs\<close> "3.prems"(2) have ne: "u # more \<noteq> t # rest" by simp
        have "viewAt (setProperty zs (t # rest) (Dir ys')) (u # more) k = viewAt zs (u # more) k"
          using "3.hyps" [of "u # more"] m g ne by simp
        with True Cons \<open>Q = q # qs\<close> m show ?thesis
          by (simp add: viewAt_def map_of_obj_set)
      qed
    qed
  qed
qed

subsection \<open>The store helpers, read through the keyed access\<close>

lemma getProperty_config_set:
  "getProperty (config_set cfg t ys) (pathSegments t) = Some (Dir ys)"
  by (simp add: config_set_def getProperty_setProperty_same pathSegments_nonempty)

lemma config_get_Dir: "getProperty cfg (pathSegments t) = Some (Dir ys) \<Longrightarrow> config_get cfg t = ys"
  by (simp add: config_get_def entriesOf_def)

lemma lookup2_Dir:
  "getProperty cfg (pathSegments t) = Some (Dir ys) \<Longrightarrow> lookup2 cfg t k = recOf (map_of ys k)"
  by (simp add: lookup2_viewAt viewAt_def)

lemma lookup2_config_get: "lookup2 cfg t k = recOf (map_of (config_get cfg t) k)"
  by (simp add: lookup2_def recOf_def)

lemma lookup2_config_set_same: "lookup2 (config_set cfg t ys) t k = recOf (map_of ys k)"
  by (simp add: lookup2_Dir [OF getProperty_config_set])

lemma lookup2_config_set_other:
  assumes "getProperty cfg (pathSegments t) = Some (Dir ys)"
    and "\<And>s zs. map_of ys s = Some (Dir zs) \<Longrightarrow> map_of ys' s = Some (Dir zs)"
    and "\<And>s zs. map_of ys' s = Some (Dir zs) \<Longrightarrow> map_of ys s = Some (Dir zs)"
    and "c \<noteq> t"
  shows "lookup2 (config_set cfg t ys') c k = lookup2 cfg c k"
proof -
  from assms(4) have "pathSegments c \<noteq> pathSegments t" by (simp add: pathSegments_inj)
  from viewAt_setProperty_other [OF assms(1) assms(2) assms(3) this]
  show ?thesis by (simp add: lookup2_viewAt config_set_def)
qed

lemma currentCwd_removeProcessData: "currentCwd (removeProcessData m k co) = currentCwd m"
  by (simp add: removeProcessData_def Let_def)


lemma targetCwd_None: "targetCwd m None = currentCwd m"
  by (simp add: targetCwd_def)

lemma removeProcessData_existing:
  assumes g: "getProperty (config m) (pathSegments (targetCwd m co)) = Some (Dir ys)"
    and nd: "\<And>zs. map_of ys k0 \<noteq> Some (Dir zs)"
  shows "lookup2 (config (removeProcessData m k0 co)) c k =
           (if c = targetCwd m co \<and> k = k0 then None else lookup2 (config m) c k)"
    and "getProperty (config (removeProcessData m k0 co)) (pathSegments (targetCwd m co))
           = Some (Dir (obj_delete k0 ys))"
proof -
  have e: "config (removeProcessData m k0 co)
             = config_set (config m) (targetCwd m co) (obj_delete k0 ys)"
    by (simp add: removeProcessData_def Let_def config_get_Dir [OF g])
  show "getProperty (config (removeProcessData m k0 co)) (pathSegments (targetCwd m co))
           = Some (Dir (obj_delete k0 ys))"
    by (simp add: e getProperty_config_set)
  show "lookup2 (config (removeProcessData m k0 co)) c k =
           (if c = targetCwd m co \<and> k = k0 then None else lookup2 (config m) c k)"
  proof (cases "c = targetCwd m co")
    case True
    then show ?thesis
      by (simp add: e lookup2_config_set_same lookup2_Dir [OF g] map_of_obj_delete)
  next
    case False
    have "lookup2 (config_set (config m) (targetCwd m co) (obj_delete k0 ys)) c k
            = lookup2 (config m) c k"
    proof (rule lookup2_config_set_other [OF g _ _ False])
      fix s zs assume "map_of ys s = Some (Dir zs)"
      with nd [of zs] show "map_of (obj_delete k0 ys) s = Some (Dir zs)"
        by (cases "s = k0") (simp_all add: map_of_obj_delete)
    next
      fix s zs assume "map_of (obj_delete k0 ys) s = Some (Dir zs)"
      then show "map_of ys s = Some (Dir zs)"
        by (cases "s = k0") (simp_all add: map_of_obj_delete)
    qed
    with False show ?thesis by (simp add: e)
  qed
qed


lemma storeProcessData_same:
  "lookup2 (config (storeProcessData m k0 d co)) (targetCwd m co) k =
     (if k = k0 then Some d else lookup2 (config m) (targetCwd m co) k)"
proof -
  have "lookup2 (config (storeProcessData m k0 d co)) (targetCwd m co) k
          = recOf (map_of (obj_set (config_get (config m) (targetCwd m co)) k0 (Rec d)) k)"
    by (simp add: storeProcessData_def Let_def lookup2_config_set_same)
  also have "\<dots> = (if k = k0 then Some d else recOf (map_of (config_get (config m) (targetCwd m co)) k))"
    by (simp add: map_of_obj_set)
  finally show ?thesis by (simp add: lookup2_config_get)
qed

lemma storeProcessData_getProperty:
  "getProperty (config (storeProcessData m k0 d co)) (pathSegments (targetCwd m co))
     = Some (Dir (obj_set (config_get (config m) (targetCwd m co)) k0 (Rec d)))"
  by (simp add: storeProcessData_def Let_def getProperty_config_set)

subsection \<open>Well-formed documents\<close>

lemma wf_node_map_of: "wf_node (Dir xs) \<Longrightarrow> map_of xs s = Some n \<Longrightarrow> wf_node n"
  by (auto simp: list_all_iff dest: map_of_SomeD)

lemma wf_getProperty: "wf_node (Dir xs) \<Longrightarrow> getProperty xs P = Some n \<Longrightarrow> wf_node n"
proof (induction xs P rule: getProperty.induct)
  case (1 xs)
  then show ?case by simp
next
  case (2 xs s)
  then show ?case by (simp add: wf_node_map_of del: wf_node.simps(2))
next
  case (3 xs s t rest)
  from "3.prems"(2) obtain ys where m: "map_of xs s = Some (Dir ys)"
    and g: "getProperty ys (t # rest) = Some n"
    by (auto split: option.splits node.splits)
  from "3.prems"(1) m have "wf_node (Dir ys)" by (rule wf_node_map_of)
  with "3.IH" [OF m] g show ?case by simp
qed

lemma distinct_map_of_mem: "distinct (map fst xs) \<Longrightarrow> (map_of xs k = Some v) = ((k, v) \<in> set xs)"
  by simp

subsection \<open>The loops over a snapshot\<close>

lemma currentCwd_cleanupStep: "currentCwd (cleanupStep os k n m) = currentCwd m"
  by (simp add: cleanupStep_def currentCwd_removeProcessData)









lemmas store_eval = lookup2_def config_get_def config_set_def pathSegments_def entriesOf_def

lemma wf_mgr_two: "wf_config (config mgr_two)"
  by (simp add: wf_config_def mgr_two_def)

subsection \<open>Flat registries\<close>

lemma pathSegments_single: "pathSegments c = [s] \<Longrightarrow> s = c"
proof -
  assume "pathSegments c = [s]"
  then have "join_with ''.'' (split_on CHR ''.'' c) = s" by (simp add: pathSegments_def)
  then show "s = c" by (simp only: join_split_on)
qed

lemma flat_partition_Dir:
  assumes that: "flat_partition n"
  shows "\<exists>ys. n = Dir ys \<and> distinct (map fst ys) \<and> [] \<notin> fst ` set ys
      \<and> (\<forall>k n'. (k, n') \<in> set ys \<longrightarrow> (\<exists>d. n' = Rec d))"
proof (cases n)
  case (Rec d)
  then show ?thesis using that by (simp add: flat_partition_def)
next
  case (Dir ys)
  with that have d: "distinct (map fst ys)" and e: "[] \<notin> fst ` set ys"
    and a: "\<forall>e\<in>set ys. case snd e of Rec d \<Rightarrow> True | Dir zs \<Rightarrow> False"
    by (simp_all add: flat_partition_def list_all_iff)
  have "\<forall>k n'. (k, n') \<in> set ys \<longrightarrow> (\<exists>d. n' = Rec d)"
  proof (intro allI impI)
    fix k n' assume "(k, n') \<in> set ys"
    with a have "case n' of Rec d \<Rightarrow> True | Dir zs \<Rightarrow> False" by force
    then show "\<exists>d. n' = Rec d" by (cases n') simp_all
  qed
  with Dir d e show ?thesis by blast
qed

lemma all_recs_getProperty:
  assumes "\<And>k n'. (k, n') \<in> set zs \<Longrightarrow> \<exists>d. n' = Rec d"
  shows "getProperty zs (t # rest) \<noteq> Some (Dir ys)"
proof (cases rest)
  case Nil
  show ?thesis
  proof
    assume "getProperty zs (t # rest) = Some (Dir ys)"
    with Nil have "(t, Dir ys) \<in> set zs" by (auto dest: map_of_SomeD)
    with assms [of t "Dir ys"] show False by simp
  qed
next
  case (Cons u more)
  show ?thesis
  proof
    assume "getProperty zs (t # rest) = Some (Dir ys)"
    with Cons obtain ws where "map_of zs t = Some (Dir ws)"
      by (auto split: option.splits node.splits)
    then have "(t, Dir ws) \<in> set zs" by (rule map_of_SomeD)
    with assms [of t "Dir ws"] show False by simp
  qed
qed

lemma flat_store_mem:
  assumes "flat_store cfg" "(c, n) \<in> set cfg"
  shows "pathSegments c = [c] \<and> c \<noteq> [] \<and> flat_partition n \<and> map_of cfg c = Some n"
proof -
  from assms have d: "distinct (map fst cfg)" and e: "[] \<notin> fst ` set cfg"
    and a: "\<forall>e\<in>set cfg. pathSegments (fst e) = [fst e] \<and> flat_partition (snd e)"
    by (simp_all add: flat_store_def list_all_iff)
  from assms(2) have "c \<in> fst ` set cfg" by force
  with e have "c \<noteq> []" by metis
  moreover from a assms(2) have "pathSegments c = [c] \<and> flat_partition n" by force
  moreover from d assms(2) have "map_of cfg c = Some n" by simp
  ultimately show ?thesis by simp
qed

lemma flat_lookup2:
  assumes fl: "flat_store cfg"
  shows "(lookup2 cfg c k = Some d) = (\<exists>ys. (c, Dir ys) \<in> set cfg \<and> (k, Rec d) \<in> set ys)"
proof
  assume "lookup2 cfg c k = Some d"
  then obtain ys where g: "getProperty cfg (pathSegments c) = Some (Dir ys)"
    and r: "map_of ys k = Some (Rec d)"
    by (auto simp: lookup2_viewAt viewAt_def recOf_def split: option.splits node.splits)
  from r have kr: "(k, Rec d) \<in> set ys" by (rule map_of_SomeD)
  show "\<exists>ys. (c, Dir ys) \<in> set cfg \<and> (k, Rec d) \<in> set ys"
  proof (cases "pathSegments c")
    case Nil
    with g show ?thesis by simp
  next
    case (Cons s rest)
    show ?thesis
    proof (cases rest)
      case Nil
      with Cons have "s = c" by (simp add: pathSegments_single)
      with g Cons Nil have "(c, Dir ys) \<in> set cfg" by (auto dest: map_of_SomeD)
      with kr show ?thesis by blast
    next
      case (Cons t more)
      with g \<open>pathSegments c = s # rest\<close> obtain zs where
        m: "map_of cfg s = Some (Dir zs)" and g': "getProperty zs (t # more) = Some (Dir ys)"
        by (auto split: option.splits node.splits)
      from m have "(s, Dir zs) \<in> set cfg" by (rule map_of_SomeD)
      with fl have "flat_partition (Dir zs)" by (simp add: flat_store_mem)
      then have ar: "\<And>k n'. (k, n') \<in> set zs \<Longrightarrow> \<exists>d. n' = Rec d"
        by (auto dest: flat_partition_Dir)
      have "getProperty zs (t # more) \<noteq> Some (Dir ys)"
        by (rule all_recs_getProperty) (rule ar)
      with g' show ?thesis by simp
    qed
  qed
next
  assume "\<exists>ys. (c, Dir ys) \<in> set cfg \<and> (k, Rec d) \<in> set ys"
  then obtain ys where c: "(c, Dir ys) \<in> set cfg" and k: "(k, Rec d) \<in> set ys" by blast
  from flat_store_mem [OF fl c] have p: "pathSegments c = [c]" and m: "map_of cfg c = Some (Dir ys)"
    and f: "flat_partition (Dir ys)" by simp_all
  from f have "distinct (map fst ys)" by (auto dest: flat_partition_Dir)
  with k have "map_of ys k = Some (Rec d)" by simp
  with p m show "lookup2 cfg c k = Some d" by (simp add: lookup2_viewAt viewAt_def)
qed

subsection \<open>The search of endProcess\<close>

lemma findInPartition_Some:
  "findInPartition p ps = Some (k, d) \<Longrightarrow> (k, Rec d) \<in> set ps \<and> pid d = p"
  by (induction p ps rule: findInPartition.induct) (auto split: if_splits node.splits)

lemma findInPartition_None:
  "(findInPartition p ps = None) = (\<forall>k d. (k, Rec d) \<in> set ps \<longrightarrow> pid d \<noteq> p)"
  by (induction p ps rule: findInPartition.induct) (auto split: node.splits)

lemma findByPid_Some:
  "findByPid p cfg = Some (c, k, d) \<Longrightarrow>
     \<exists>n. (c, n) \<in> set cfg \<and> (k, Rec d) \<in> set (entriesOf n) \<and> pid d = p"
  by (induction p cfg rule: findByPid.induct)
     (auto split: option.splits dest: findInPartition_Some)

lemma findByPid_None_iff:
  "(findByPid p cfg = None) = (\<forall>e \<in> set cfg. findInPartition p (entriesOf (snd e)) = None)"
  by (induction p cfg rule: findByPid.induct) (auto split: option.splits)

lemma findByPid_None:
  "(findByPid p cfg = None) =
     (\<forall>c n k d. (c, n) \<in> set cfg \<and> (k, Rec d) \<in> set (entriesOf n) \<longrightarrow> pid d \<noteq> p)"
proof -
  have "(\<forall>e \<in> set cfg. findInPartition p (entriesOf (snd e)) = None) =
        (\<forall>c n. (c, n) \<in> set cfg \<longrightarrow> findInPartition p (entriesOf n) = None)"
    by force
  also have "\<dots> = (\<forall>c n k d. (c, n) \<in> set cfg \<and> (k, Rec d) \<in> set (entriesOf n) \<longrightarrow> pid d \<noteq> p)"
    unfolding findInPartition_None by blast
  finally show ?thesis by (simp only: findByPid_None_iff)
qed

lemma config_sendTerm: "config (fst (sendTerm os m p)) = config m"
  by (simp add: sendTerm_def)

lemma snd_sendTerm: "snd (sendTerm os m p) = termAccepted os m p"
  by (simp add: sendTerm_def termAccepted_def)

lemma currentCwd_sendTerm: "currentCwd (fst (sendTerm os m p)) = currentCwd m"
  by (simp add: sendTerm_def)

lemma endProcess_found:
  assumes f: "findByPid p (config m) = Some (c0, k0, d0)" and ne: "k0 \<noteq> []" "c0 \<noteq> []"
  shows "\<exists>m1. config m1 = config m \<and> fst (endProcess os m p) = removeProcessData m1 k0 (Some c0)
           \<and> targetCwd m1 (Some c0) = c0"
    and "snd (endProcess os m p) = (\<not> probe os p \<or> termAccepted os m p)"
proof -
  from f have pd: "pid d0 = p" by (auto dest: findByPid_Some)
  define r where "r = (if probe os p then sendTerm os m p else (m, False))"
  have e: "endProcess os m p = (removeProcessData (fst r) k0 (Some c0), snd r \<or> \<not> probe os p)"
    using f ne pd by (simp add: endProcess_def r_def Let_def split: prod.splits)
  have c1: "config (fst r) = config m"
    by (simp add: r_def config_sendTerm)
  have k1: "(snd r \<or> \<not> probe os p) = (\<not> probe os p \<or> termAccepted os m p)"
    by (auto simp: r_def snd_sendTerm)
  have t: "targetCwd (fst r) (Some c0) = c0"
    using ne by (simp add: targetCwd_def)
  show "\<exists>m1. config m1 = config m \<and> fst (endProcess os m p) = removeProcessData m1 k0 (Some c0)
           \<and> targetCwd m1 (Some c0) = c0"
    using e c1 t by auto
  show "snd (endProcess os m p) = (\<not> probe os p \<or> termAccepted os m p)"
    by (simp add: e k1)
qed

lemma findByPid_flat:
  assumes fl: "flat_store cfg"
  shows "(\<exists>c k d. lookup2 cfg c k = Some d \<and> pid d = p) = (findByPid p cfg \<noteq> None)"
proof -
  have "(findByPid p cfg \<noteq> None) =
          (\<exists>c n k d. (c, n) \<in> set cfg \<and> (k, Rec d) \<in> set (entriesOf n) \<and> pid d = p)"
    by (simp add: findByPid_None)
  also have "\<dots> = (\<exists>c ys k d. (c, Dir ys) \<in> set cfg \<and> (k, Rec d) \<in> set ys \<and> pid d = p)"
  proof
    assume "\<exists>c n k d. (c, n) \<in> set cfg \<and> (k, Rec d) \<in> set (entriesOf n) \<and> pid d = p"
    then obtain c n k d where c: "(c, n) \<in> set cfg" and k: "(k, Rec d) \<in> set (entriesOf n)"
      and p: "pid d = p" by blast
    from k obtain ys where "n = Dir ys" by (cases n) (auto simp: entriesOf_def)
    with c k p show "\<exists>c ys k d. (c, Dir ys) \<in> set cfg \<and> (k, Rec d) \<in> set ys \<and> pid d = p"
      by (auto simp: entriesOf_def)
  next
    assume "\<exists>c ys k d. (c, Dir ys) \<in> set cfg \<and> (k, Rec d) \<in> set ys \<and> pid d = p"
    then obtain c ys k d where "(c, Dir ys) \<in> set cfg" "(k, Rec d) \<in> set (entriesOf (Dir ys))"
      "pid d = p" by (auto simp: entriesOf_def)
    then show "\<exists>c n k d. (c, n) \<in> set cfg \<and> (k, Rec d) \<in> set (entriesOf n) \<and> pid d = p"
      by blast
  qed
  also have "\<dots> = (\<exists>c k d. lookup2 cfg c k = Some d \<and> pid d = p)"
    by (simp add: flat_lookup2 [OF fl]) blast
  finally show ?thesis by simp
qed

lemma findByPid_flat_Some:
  assumes fl: "flat_store cfg" and f: "findByPid p cfg = Some (c0, k0, d0)"
  shows "lookup2 cfg c0 k0 = Some d0 \<and> pid d0 = p \<and> c0 \<noteq> [] \<and> k0 \<noteq> []
         \<and> (\<exists>ys. getProperty cfg (pathSegments c0) = Some (Dir ys) \<and> map_of ys k0 = Some (Rec d0))"
proof -
  from f obtain n where c: "(c0, n) \<in> set cfg" and k: "(k0, Rec d0) \<in> set (entriesOf n)"
    and pd: "pid d0 = p"
    by (auto dest: findByPid_Some)
  from flat_store_mem [OF fl c] have p: "pathSegments c0 = [c0]" and ne: "c0 \<noteq> []"
    and fp: "flat_partition n" and m: "map_of cfg c0 = Some n" by simp_all
  from flat_partition_Dir [OF fp] obtain ys where n: "n = Dir ys" and d: "distinct (map fst ys)"
    and e: "[] \<notin> fst ` set ys" by blast
  from k n have k': "(k0, Rec d0) \<in> set ys" by (simp add: entriesOf_def)
  with e have "k0 \<noteq> []" by force
  moreover from k' d have r: "map_of ys k0 = Some (Rec d0)" by simp
  moreover from c n k' have "lookup2 cfg c0 k0 = Some d0" by (auto simp: flat_lookup2 [OF fl])
  moreover from p m n have "getProperty cfg (pathSegments c0) = Some (Dir ys)" by simp
  ultimately show ?thesis using pd ne by blast
qed

text \<open>
  On a flat registry \<open>endProcess\<close> deletes the first record it finds with the pid, whatever
  the operating system answers, and changes no other entry.
\<close>

lemma endProcess_flat_deletes:
  assumes fl: "flat_store (config m)"
    and l: "lookup2 (config m) c k = Some d" and pd: "pid d = p"
  shows "\<exists>c0 k0 d0. findByPid p (config m) = Some (c0, k0, d0)
           \<and> lookup2 (config m) c0 k0 = Some d0 \<and> pid d0 = p
           \<and> (\<forall>c' k'. lookup2 (config (fst (endProcess os m p))) c' k' =
                 (if c' = c0 \<and> k' = k0 then None else lookup2 (config m) c' k'))"
proof -
  from l pd have "findByPid p (config m) \<noteq> None"
    using findByPid_flat [OF fl, of p] by blast
  then obtain c0 k0 d0 where f: "findByPid p (config m) = Some (c0, k0, d0)"
    by (cases "findByPid p (config m)") auto
  from findByPid_flat_Some [OF fl f] obtain ys where
    w: "lookup2 (config m) c0 k0 = Some d0" "pid d0 = p" and ne: "k0 \<noteq> []" "c0 \<noteq> []"
    and g: "getProperty (config m) (pathSegments c0) = Some (Dir ys)"
    and r: "map_of ys k0 = Some (Rec d0)"
    by blast
  from endProcess_found(1) [OF f ne, of os] obtain m1 where
    c1: "config m1 = config m" and e: "fst (endProcess os m p) = removeProcessData m1 k0 (Some c0)"
    and t: "targetCwd m1 (Some c0) = c0"
    by blast
  from g c1 t have g1: "getProperty (config m1) (pathSegments (targetCwd m1 (Some c0))) = Some (Dir ys)"
    by simp
  from r have nd: "\<And>zs. map_of ys k0 \<noteq> Some (Dir zs)" by simp
  have "\<forall>c' k'. lookup2 (config (fst (endProcess os m p))) c' k' =
                 (if c' = c0 \<and> k' = k0 then None else lookup2 (config m) c' k')"
    by (simp add: e removeProcessData_existing(1) [OF g1 nd] t c1)
  with f w show ?thesis by blast
qed


subsection \<open>Starting a process\<close>

lemmas startProcess_eval = startProcess_def withPid_def finishStart_def startFailure_def
  storeProcessData_def targetCwd_def config_get_def config_set_def pathSegments_def entriesOf_def
  generateProcessKey_def getLogFilePath_def
  path_join_def workingDir_def baseCwd_def or_else_def posix_resolve_def Let_def

lemma startProcess_Inr:
  assumes "startProcess env m cmd autoSd cwdArg = (m', Inr p)"
  shows "spawnResult env = Spawned (Some p) \<and> p \<noteq> 0 \<and> (\<not> autoSd \<longrightarrow> openThrows env = None)
    \<and> (m', Inr p) = finishStart env m (generateProcessKey cmd (nowKey env)) cmd
          (workingDir env m cwdArg) autoSd p
          (if autoSd then getLogFilePath m p else getLogFilePath m (nowTemp env))"
  using assms
  by (auto simp: startProcess_def withPid_def startFailure_def finishStart_def Let_def
      split: SpawnResult.splits option.splits if_splits)

lemma startProcess_Inl:
  assumes "startProcess env m cmd autoSd cwdArg = (m', Inl e)"
  shows "m' = m"
  using assms
  by (auto simp: startProcess_def withPid_def startFailure_def finishStart_def Let_def
      split: SpawnResult.splits option.splits if_splits)

lemma startProcess_no_pid:
  assumes "spawnResult env = SpawnThrew e \<or> spawnResult env = Spawned None
             \<or> spawnResult env = Spawned (Some 0)"
  shows "\<exists>msg. startProcess env m cmd autoSd cwdArg = (m, Inl msg)"
  using assms
  by (auto simp: startProcess_def withPid_def startFailure_def Let_def
      split: SpawnResult.splits option.splits if_splits)

lemma finishStart_store:
  assumes "finishStart env m key cmd wd autoSd p lf = (m', r)"
  shows "config m' = config_set (config m) (currentCwd m)
           (obj_set (config_get (config m) (currentCwd m)) key
              (Rec \<lparr>pid = p, command = cmd, cwd = wd, status = Running,
                 startTime = nowStart env, autoShutdown = autoSd,
                 logFile = Some lf, errorOutput = None\<rparr>))"
    and "runningProcesses m' = insert p (runningProcesses m)"
    and "r = Inr p"
  using assms by (auto simp: finishStart_def storeProcessData_def targetCwd_def Let_def)

lemma finishStart_lookup2:
  assumes "finishStart env m key cmd wd autoSd p lf = (m', r)"
  shows "lookup2 (config m') (currentCwd m) k =
     (if k = key
      then Some \<lparr>pid = p, command = cmd, cwd = wd, status = Running,
                 startTime = nowStart env, autoShutdown = autoSd,
                 logFile = Some lf, errorOutput = None\<rparr>
      else lookup2 (config m) (currentCwd m) k)"
proof -
  have "lookup2 (config m') (currentCwd m) k
      = recOf (map_of (obj_set (config_get (config m) (currentCwd m)) key
              (Rec \<lparr>pid = p, command = cmd, cwd = wd, status = Running,
                 startTime = nowStart env, autoShutdown = autoSd,
                 logFile = Some lf, errorOutput = None\<rparr>)) k)"
    by (simp add: finishStart_store(1) [OF assms] lookup2_config_set_same)
  also have "\<dots> = (if k = key
      then Some \<lparr>pid = p, command = cmd, cwd = wd, status = Running,
                 startTime = nowStart env, autoShutdown = autoSd,
                 logFile = Some lf, errorOutput = None\<rparr>
      else recOf (map_of (config_get (config m) (currentCwd m)) k))"
    by (simp add: map_of_obj_set)
  finally show ?thesis by (simp add: lookup2_config_get)
qed





lemma set_obj_set: "set (obj_set xs k v) \<subseteq> insert (k, v) (set xs)"
  by (induction xs k v rule: obj_set.induct) auto



lemma config_mgr_dotted_started: "config mgr_dotted_started = store_dotted"
  by (simp add: mgr_dotted_started_def startProcess_eval show_int_eval env_spawned_def
      mgr_dotted_def store_dotted_def rec_dotted_def)

lemma started_mgr_dotted:
  "startProcess env_spawned mgr_dotted ''sleep 1'' True None = (mgr_dotted_started, Inr 4321)"
  by (simp add: mgr_dotted_started_def startProcess_eval env_spawned_def)

lemma endProcess_dotted_key:
  "lookup2 (config mgr_seeded) ''/srv/app.v2'' ''node app.js_1700000000700'' = None
   \<and> endProcess os_all_dead mgr_seeded 88 =
       (mgr_seeded\<lparr>config := [(''/srv/app.v2'', Dir [(''node app.js_1700000000700'', Rec rec_app)]),
                               (''/srv/app'', Dir [(''v2'', Dir [])])]\<rparr>, True)"
  by (simp add: endProcess_def mgr_seeded_def rec_app_def os_all_dead_def removeProcessData_def
      targetCwd_def obj_delete_def Let_def store_eval)

lemma cleanupStale_dotted_key:
  "config (cleanupStaleAutoShutdownProcesses os_all_dead mgr_seeded) =
     [(''/srv/app.v2'', Dir [(''node app.js_1700000000700'', Rec rec_app)]),
      (''/srv/app'', Dir [(''v2'', Dir [])])]"
  by (simp add: cleanupStaleAutoShutdownProcesses_def staleStep_def autoShutdownTruthy_def
      statusRunning_def mgr_seeded_def rec_app_def os_all_dead_def obj_delete_def Let_def store_eval)

subsection \<open>Reading logs\<close>

lemma nonEmptyLines_log_text: "nonEmptyLines log_text = ten_lines"
  by (simp add: nonEmptyLines_def log_text_def ten_lines_def newline_def)

lemma findLogFile_two: "findLogFile 77 (map snd (getAllProcesses mgr_two)) = Some ''/home/u/logs/process_77.log''"
  by (simp add: getAllProcesses_def mgr_two_def composite_key_def entriesOf_def
      rec_sleep_def rec_done_def rec_web_def)

lemma js_slice_from_last_n: "0 < n \<Longrightarrow> js_slice_from (- n) xs = last_n (nat n) xs"
  by (auto simp: js_slice_from_def last_n_def Let_def max_def nat_diff_distrib')

lemma getProcessLogs_tail:
  assumes "findLogFile p (map snd (getAllProcesses m)) = Some f"
    and "fs f = Some (Content content)" and "0 < n"
  shows "getProcessLogs fs m p n = join_with [newline] (last_n (nat n) (nonEmptyLines content))"
  using assms by (simp add: getProcessLogs_def js_slice_from_last_n)

subsection \<open>Directory prefixes\<close>

lemma path_of_simps:
  "path_of [] = []" "path_of (a # ts) = CHR ''/'' # a @ path_of ts"
  by (simp_all add: path_of_def)

lemma path_of_shape: "path_of ts = [] \<or> (\<exists>r. path_of ts = CHR ''/'' # r)"
  by (cases ts) (simp_all add: path_of_simps)

lemma prefix_segment:
  assumes "CHR ''/'' \<notin> set a" "CHR ''/'' \<notin> set b" "S = [] \<or> (\<exists>r. S = CHR ''/'' # r)"
  shows "prefix (a @ CHR ''/'' # R) (b @ S) = (a = b \<and> prefix (CHR ''/'' # R) S)"
  using assms
proof (induction a arbitrary: b)
  case Nil
  then show ?case by (cases b) auto
next
  case (Cons x a)
  show ?case
  proof (cases b)
    case Nil
    with Cons.prems show ?thesis by auto
  next
    case (Cons y b')
    with Cons.prems Cons.IH [of b'] show ?thesis by auto
  qed
qed

lemma prefix_path_of:
  "list_all seg_ok ts \<Longrightarrow> list_all seg_ok ds \<Longrightarrow>
   prefix (path_of ts @ ''/'') (path_of ds) = strict_prefix ts ds"
proof (induction ts arbitrary: ds)
  case Nil
  then show ?case by (cases ds) (simp_all add: path_of_simps)
next
  case (Cons a ts)
  show ?case
  proof (cases ds)
    case Nil
    then show ?thesis by (simp add: path_of_simps)
  next
    case (Cons b ds')
    from Cons.prems Cons have sk: "seg_ok a" "seg_ok b"
      and ok': "list_all seg_ok ts" "list_all seg_ok ds'"
      by simp_all
    from sk have "CHR ''/'' \<notin> set a" "CHR ''/'' \<notin> set b" by (simp_all add: seg_ok_def)
    note ok = this ok'
    obtain R where R: "path_of ts @ ''/'' = CHR ''/'' # R"
      using path_of_shape [of ts] by auto
    have "prefix (path_of (a # ts) @ ''/'') (path_of (b # ds'))
        = prefix (a @ CHR ''/'' # R) (b @ path_of ds')"
      using R by (simp add: path_of_simps)
    also have "\<dots> = (a = b \<and> prefix (CHR ''/'' # R) (path_of ds'))"
      by (rule prefix_segment [OF ok(1,2) path_of_shape])
    also have "\<dots> = (a = b \<and> strict_prefix ts ds')"
      using Cons.IH [OF ok(3,4)] R by simp
    finally show ?thesis using Cons by simp
  qed
qed

lemma split_on_segment: "c \<notin> set a \<Longrightarrow> split_on c (a @ c # r) = a # split_on c r"
  by (induction a) (auto split: list.splits)

lemma split_on_path_of:
  "list_all seg_ok ts \<Longrightarrow> ts \<noteq> [] \<Longrightarrow> split_on CHR ''/'' (path_of ts) = [] # ts"
proof (induction ts)
  case Nil
  then show ?case by simp
next
  case (Cons a ts)
  then have "seg_ok a" and ok: "list_all seg_ok ts" by simp_all
  then have a: "CHR ''/'' \<notin> set a" by (simp add: seg_ok_def)
  show ?case
  proof (cases ts)
    case Nil
    with a show ?thesis by (simp add: path_of_simps split_on_no_sep)
  next
    case (Cons b ts')
    with Cons.IH ok have "split_on CHR ''/'' (path_of ts) = [] # ts" by simp
    moreover obtain r where r: "path_of ts = CHR ''/'' # r"
      using Cons by (auto simp: path_of_simps)
    ultimately have "split_on CHR ''/'' r = ts" by simp
    with a r show ?thesis by (simp add: path_of_simps split_on_segment)
  qed
qed

lemma segments_path_of: "list_all seg_ok ts \<Longrightarrow> segments (path_of ts) = ts"
proof (cases ts)
  case Nil
  then show ?thesis by (simp add: segments_def path_of_simps)
next
  case (Cons a ts')
  assume ok: "list_all seg_ok ts"
  then have "filter (\<lambda>s. s \<noteq> []) ts = ts"
    by (induction ts) (simp_all add: seg_ok_def)
  with ok Cons show ?thesis
    by (simp add: segments_def split_on_path_of)
qed

lemma path_of_inj:
  assumes "list_all seg_ok ts" "list_all seg_ok ds" "path_of ts = path_of ds"
  shows "ts = ds"
proof -
  from assms(1) have "segments (path_of ts) = ts" by (rule segments_path_of)
  with assms(3) have "segments (path_of ds) = ts" by simp
  with assms(2) show ?thesis by (simp add: segments_path_of)
qed

lemma shouldInclude_exact: "shouldInclude False t d = (d = t)"
  by (simp add: shouldInclude_def)

lemma shouldInclude_normal_form:
  assumes "list_all seg_ok ts" "list_all seg_ok ds"
  shows "shouldInclude True (path_of ts) (path_of ds) =
           (path_of ds = path_of ts \<or> is_descendant (path_of ts) (path_of ds))"
  using assms
  by (simp add: shouldInclude_def path_sep_def is_descendant_def segments_path_of prefix_path_of)

subsection \<open>Flat registries stay flat\<close>

text \<open>
  Some theorems below assume \<open>flat_store\<close>. It holds of the empty store, and the
  operations of a manager keep it as long as the managers that start processes are
  rooted at non-empty directories without a dot.
\<close>

lemma fst_set_obj_set: "fst ` set (obj_set xs k v) = insert k (fst ` set xs)"
  by (induction xs k v rule: obj_set.induct) auto

lemma distinct_obj_set: "distinct (map fst xs) \<Longrightarrow> distinct (map fst (obj_set xs k v))"
proof (induction xs)
  case Nil
  show ?case by simp
next
  case (Cons x xs)
  obtain k' v' where x: "x = (k', v')" by (cases x)
  show ?case
  proof (cases "k' = k")
    case True
    with Cons.prems x show ?thesis by simp
  next
    case False
    from Cons.prems x have "k' \<notin> fst ` set xs" and d: "distinct (map fst xs)" by auto
    with False have "k' \<notin> fst ` set (obj_set xs k v)" by (simp add: fst_set_obj_set)
    with Cons.IH [OF d] False x show ?thesis by simp
  qed
qed

lemma distinct_obj_delete: "distinct (map fst xs) \<Longrightarrow> distinct (map fst (obj_delete k xs))"
  by (simp add: obj_delete_def distinct_map_filter)

lemma set_obj_delete: "set (obj_delete k xs) \<subseteq> set xs"
  by (auto simp: obj_delete_def)

lemma flat_partition_iff:
  "flat_partition (Dir ys) = (distinct (map fst ys) \<and> [] \<notin> fst ` set ys
      \<and> (\<forall>k n. (k, n) \<in> set ys \<longrightarrow> (\<exists>d. n = Rec d)))"
proof
  assume "flat_partition (Dir ys)"
  from flat_partition_Dir [OF this] show "distinct (map fst ys) \<and> [] \<notin> fst ` set ys
      \<and> (\<forall>k n. (k, n) \<in> set ys \<longrightarrow> (\<exists>d. n = Rec d))" by simp
next
  assume a: "distinct (map fst ys) \<and> [] \<notin> fst ` set ys
      \<and> (\<forall>k n. (k, n) \<in> set ys \<longrightarrow> (\<exists>d. n = Rec d))"
  have "\<forall>e\<in>set ys. case snd e of Rec d \<Rightarrow> True | Dir zs \<Rightarrow> False"
  proof
    fix e assume "e \<in> set ys"
    then have "(fst e, snd e) \<in> set ys" by simp
    with a obtain d where "snd e = Rec d" by blast
    then show "case snd e of Rec d \<Rightarrow> True | Dir zs \<Rightarrow> False" by simp
  qed
  with a show "flat_partition (Dir ys)" by (simp add: flat_partition_def list_all_iff)
qed

lemma flat_partition_empty: "flat_partition (Dir [])"
  by (simp add: flat_partition_def)

lemma flat_partition_obj_set:
  assumes "flat_partition (Dir ys)" "k \<noteq> []"
  shows "flat_partition (Dir (obj_set ys k (Rec d)))"
proof -
  from assms(1) have a: "distinct (map fst ys)" "[] \<notin> fst ` set ys"
    "\<And>k n. (k, n) \<in> set ys \<Longrightarrow> \<exists>d. n = Rec d"
    by (simp_all add: flat_partition_iff)
  have "\<And>k' n. (k', n) \<in> set (obj_set ys k (Rec d)) \<Longrightarrow> \<exists>d. n = Rec d"
  proof -
    fix k' n assume "(k', n) \<in> set (obj_set ys k (Rec d))"
    with set_obj_set [of ys k "Rec d"] have "(k', n) = (k, Rec d) \<or> (k', n) \<in> set ys" by auto
    with a(3) show "\<exists>d. n = Rec d" by auto
  qed
  moreover have "[] \<notin> fst ` set (obj_set ys k (Rec d))"
    using a(2) assms(2) by (simp add: fst_set_obj_set)
  ultimately show ?thesis using a(1) by (simp add: flat_partition_iff distinct_obj_set)
qed

lemma flat_partition_obj_delete:
  assumes "flat_partition (Dir ys)"
  shows "flat_partition (Dir (obj_delete k ys))"
proof -
  from assms have a: "distinct (map fst ys)" "[] \<notin> fst ` set ys"
    "\<And>k n. (k, n) \<in> set ys \<Longrightarrow> \<exists>d. n = Rec d"
    by (simp_all add: flat_partition_iff)
  have "\<And>k' n. (k', n) \<in> set (obj_delete k ys) \<Longrightarrow> \<exists>d. n = Rec d"
    using a(3) set_obj_delete [of k ys] by blast
  moreover have "[] \<notin> fst ` set (obj_delete k ys)"
    using a(2) set_obj_delete [of k ys] by force
  ultimately show ?thesis using a(1) by (simp add: flat_partition_iff distinct_obj_delete)
qed

lemma flat_store_iff:
  "flat_store cfg = (distinct (map fst cfg) \<and> [] \<notin> fst ` set cfg
      \<and> (\<forall>c n. (c, n) \<in> set cfg \<longrightarrow> pathSegments c = [c] \<and> flat_partition n))"
  by (auto simp: flat_store_def list_all_iff)

lemma flat_store_obj_set:
  assumes fl: "flat_store cfg" and p: "pathSegments c = [c]" and ne: "c \<noteq> []"
    and fp: "flat_partition n"
  shows "flat_store (obj_set cfg c n)"
proof -
  from fl have a: "distinct (map fst cfg)" "[] \<notin> fst ` set cfg"
    "\<And>c n. (c, n) \<in> set cfg \<Longrightarrow> pathSegments c = [c] \<and> flat_partition n"
    by (simp_all add: flat_store_iff)
  have "\<And>c' n'. (c', n') \<in> set (obj_set cfg c n) \<Longrightarrow> pathSegments c' = [c'] \<and> flat_partition n'"
  proof -
    fix c' n' assume "(c', n') \<in> set (obj_set cfg c n)"
    with set_obj_set [of cfg c n] have "(c', n') = (c, n) \<or> (c', n') \<in> set cfg" by auto
    with a(3) p fp show "pathSegments c' = [c'] \<and> flat_partition n'" by auto
  qed
  moreover have "[] \<notin> fst ` set (obj_set cfg c n)"
    using a(2) ne by (simp add: fst_set_obj_set)
  ultimately show ?thesis using a(1) by (simp add: flat_store_iff distinct_obj_set)
qed

lemma config_set_plain: "pathSegments c = [c] \<Longrightarrow> config_set cfg c ys = obj_set cfg c (Dir ys)"
  by (simp add: config_set_def)

lemma config_get_plain:
  "pathSegments c = [c] \<Longrightarrow>
     config_get cfg c = (case map_of cfg c of None \<Rightarrow> [] | Some n \<Rightarrow> entriesOf n)"
  by (simp add: config_get_def)

lemma flat_config_get_partition:
  assumes fl: "flat_store cfg" and p: "pathSegments t = [t]"
  shows "flat_partition (Dir (config_get cfg t))"
proof (cases "map_of cfg t")
  case None
  with p show ?thesis by (simp add: config_get_plain flat_partition_empty)
next
  case (Some n)
  then have "(t, n) \<in> set cfg" by (rule map_of_SomeD)
  with fl have f: "flat_partition n" by (simp add: flat_store_mem)
  from flat_partition_Dir [OF f] obtain ys where "n = Dir ys" by blast
  with f Some p show ?thesis by (simp add: config_get_plain entriesOf_def)
qed

lemma flat_config_get_dotted:
  assumes fl: "flat_store cfg" and ne: "config_get cfg t \<noteq> []"
  shows "pathSegments t = [t] \<and> t \<noteq> [] \<and> (\<exists>ys. getProperty cfg (pathSegments t) = Some (Dir ys))"
proof -
  from ne obtain ys where g: "getProperty cfg (pathSegments t) = Some (Dir ys)"
    by (cases "getProperty cfg (pathSegments t)")
       (auto simp: config_get_def entriesOf_def split: node.splits)
  show ?thesis
  proof (cases "pathSegments t")
    case Nil
    then show ?thesis by (simp add: pathSegments_nonempty)
  next
    case (Cons s rest)
    show ?thesis
    proof (cases rest)
      case Nil
      with Cons have st: "s = t" using pathSegments_single [of t s] by simp
      with g Cons Nil have "(t, Dir ys) \<in> set cfg" by (auto dest: map_of_SomeD)
      from flat_store_mem [OF fl this] g show ?thesis by simp
    next
      case (Cons u more)
      with g \<open>pathSegments t = s # rest\<close> obtain zs where
        m: "map_of cfg s = Some (Dir zs)" and g': "getProperty zs (u # more) = Some (Dir ys)"
        by (auto split: option.splits node.splits)
      from m have "(s, Dir zs) \<in> set cfg" by (rule map_of_SomeD)
      with fl have "flat_partition (Dir zs)" by (simp add: flat_store_mem)
      then have ar: "\<And>k n'. (k, n') \<in> set zs \<Longrightarrow> \<exists>d. n' = Rec d"
        by (simp add: flat_partition_iff)
      have "getProperty zs (u # more) \<noteq> Some (Dir ys)"
        by (rule all_recs_getProperty) (rule ar)
      with g' show ?thesis by simp
    qed
  qed
qed

lemma flat_storeProcessData:
  assumes "flat_store (config m)" "pathSegments (targetCwd m co) = [targetCwd m co]"
    "targetCwd m co \<noteq> []" "k \<noteq> []"
  shows "flat_store (config (storeProcessData m k d co))"
  using assms
  by (simp add: storeProcessData_def Let_def config_set_plain flat_store_obj_set
      flat_partition_obj_set flat_config_get_partition)

lemma flat_removeProcessData:
  assumes "flat_store (config m)" "pathSegments (targetCwd m co) = [targetCwd m co]"
    "targetCwd m co \<noteq> []"
  shows "flat_store (config (removeProcessData m k co))"
  using assms
  by (simp add: removeProcessData_def Let_def config_set_plain flat_store_obj_set
      flat_partition_obj_delete flat_config_get_partition)

lemma flat_updateProcessData:
  assumes fl: "flat_store (config m)"
  shows "flat_store (config (updateProcessData m k d co))"
proof (cases "map_of (config_get (config m) (targetCwd m co)) k")
  case None
  with fl show ?thesis by (simp add: updateProcessData_def Let_def)
next
  case (Some n)
  then have "config_get (config m) (targetCwd m co) \<noteq> []" by auto
  from flat_config_get_dotted [OF fl this]
  have p: "pathSegments (targetCwd m co) = [targetCwd m co]" and ne: "targetCwd m co \<noteq> []"
    by simp_all
  from Some have "(k, n) \<in> set (config_get (config m) (targetCwd m co))" by (rule map_of_SomeD)
  moreover from flat_config_get_partition [OF fl p]
  have "[] \<notin> fst ` set (config_get (config m) (targetCwd m co))" by (simp add: flat_partition_iff)
  ultimately have "k \<noteq> []" by force
  with fl p ne show ?thesis
    by (simp add: updateProcessData_def Let_def config_set_plain flat_store_obj_set
        flat_partition_obj_set flat_config_get_partition)
qed

lemma generateProcessKey_nonempty: "generateProcessKey cmd now \<noteq> []"
  by (simp add: generateProcessKey_def)

lemma flat_startProcess:
  assumes fl: "flat_store (config m)" and p: "pathSegments (currentCwd m) = [currentCwd m]"
    and ne: "currentCwd m \<noteq> []"
  shows "flat_store (config (fst (startProcess env m cmd autoSd cwdArg)))"
proof (cases "snd (startProcess env m cmd autoSd cwdArg)")
  case (Inl e)
  then have "startProcess env m cmd autoSd cwdArg = (fst (startProcess env m cmd autoSd cwdArg), Inl e)"
    by (simp add: prod_eq_iff)
  from startProcess_Inl [OF this] fl show ?thesis by simp
next
  case (Inr q)
  then have "startProcess env m cmd autoSd cwdArg = (fst (startProcess env m cmd autoSd cwdArg), Inr q)"
    by (simp add: prod_eq_iff)
  from startProcess_Inr [OF this]
  have "fst (startProcess env m cmd autoSd cwdArg) =
      fst (finishStart env m (generateProcessKey cmd (nowKey env)) cmd
          (workingDir env m cwdArg) autoSd q
          (if autoSd then getLogFilePath m q else getLogFilePath m (nowTemp env)))"
    by (metis fst_conv)
  moreover have "flat_store (config (fst (finishStart env m (generateProcessKey cmd (nowKey env)) cmd
          (workingDir env m cwdArg) autoSd q lf)))" for lf
    using fl p ne
    by (simp add: finishStart_def Let_def flat_storeProcessData targetCwd_None
        generateProcessKey_nonempty)
  ultimately show ?thesis by simp
qed

lemma flat_endProcess:
  assumes fl: "flat_store (config m)"
  shows "flat_store (config (fst (endProcess os m p)))"
proof (cases "findByPid p (config m)")
  case None
  with fl show ?thesis by (simp add: endProcess_def)
next
  case (Some t)
  obtain c0 k0 d0 where "t = (c0, k0, d0)" by (cases t)
  with Some have f: "findByPid p (config m) = Some (c0, k0, d0)" by simp
  from findByPid_flat_Some [OF fl f] have ne: "k0 \<noteq> []" "c0 \<noteq> []" by simp_all
  from f obtain n where "(c0, n) \<in> set (config m)" by (auto dest: findByPid_Some)
  from flat_store_mem [OF fl this] have p: "pathSegments c0 = [c0]" by simp
  from endProcess_found(1) [OF f ne, of os] obtain m1 where
    c1: "config m1 = config m" and e: "fst (endProcess os m p) = removeProcessData m1 k0 (Some c0)"
    and t: "targetCwd m1 (Some c0) = c0"
    by blast
  from fl c1 p ne t show ?thesis by (simp add: e flat_removeProcessData)
qed

lemma flat_cleanupLoop:
  assumes "flat_store (config m)"
    and "es \<noteq> [] \<Longrightarrow> pathSegments (currentCwd m) = [currentCwd m] \<and> currentCwd m \<noteq> []"
  shows "flat_store (config (cleanupLoop os es m))"
  using assms
proof (induction es arbitrary: m)
  case Nil
  then show ?case by simp
next
  case (Cons a rest)
  obtain k0 n0 where a: "a = (k0, n0)" by (cases a)
  from Cons.prems(2) have p: "pathSegments (currentCwd m) = [currentCwd m]" "currentCwd m \<noteq> []"
    by simp_all
  have "flat_store (config (cleanupStep os k0 n0 m))"
    using Cons.prems(1) p
    by (simp add: cleanupStep_def flat_removeProcessData targetCwd_None)
  moreover have "pathSegments (currentCwd (cleanupStep os k0 n0 m)) = [currentCwd (cleanupStep os k0 n0 m)]
      \<and> currentCwd (cleanupStep os k0 n0 m) \<noteq> []"
    using p by (simp add: currentCwd_cleanupStep)
  ultimately show ?case using Cons.IH [of "cleanupStep os k0 n0 m"] by (simp add: a)
qed

lemma flat_cleanup:
  assumes fl: "flat_store (config m)"
  shows "flat_store (config (cleanup os m))"
  unfolding cleanup_def getCurrentCwdProcesses_def
  using flat_config_get_dotted [OF fl, of "currentCwd m"]
  by (intro flat_cleanupLoop [OF fl]) simp

lemma flat_healthLoop:
  assumes "flat_store (config m)"
  shows "flat_store (config (healthLoop os es m))"
  using assms
proof (induction es arbitrary: m)
  case Nil
  then show ?case by simp
next
  case (Cons a rest)
  obtain k0 n0 where a: "a = (k0, n0)" by (cases a)
  have "flat_store (config (healthStep os k0 n0 m))"
    using Cons.prems
    by (cases n0) (simp_all add: healthStep_def Let_def flat_updateProcessData)
  with Cons.IH show ?case by (simp add: a)
qed

lemma flat_checkProcessHealth:
  "flat_store (config m) \<Longrightarrow> flat_store (config (checkProcessHealth os m))"
  by (simp add: checkProcessHealth_def flat_healthLoop)

subsection \<open>Startup reconciliation on a flat registry\<close>

lemma config_delete_existing:
  assumes g: "getProperty cfg (pathSegments t) = Some (Dir ys)"
    and nd: "\<And>zs. map_of ys k0 \<noteq> Some (Dir zs)"
  shows "lookup2 (config_set cfg t (obj_delete k0 (config_get cfg t))) c k =
           (if c = t \<and> k = k0 then None else lookup2 cfg c k)"
proof -
  define m where "m = \<lparr>config = cfg, runningProcesses = {}, currentCwd = t, logDir = []\<rparr>"
  have g': "getProperty (config m) (pathSegments (targetCwd m None)) = Some (Dir ys)"
    using g by (simp add: m_def targetCwd_def)
  from removeProcessData_existing(1) [OF g' nd, of c k] show ?thesis
    by (simp add: m_def removeProcessData_def targetCwd_def Let_def)
qed

lemma staleStep_flat:
  assumes fl: "flat_store cfg" and mem: "c \<in> fst ` set cfg"
  shows "lookup2 (staleStep os c k0 (Rec d0) cfg) c' k' =
           (if c' = c \<and> k' = k0 \<and> autoShutdown d0 \<and> (\<not> probe os (pid d0) \<or> status d0 \<noteq> Running)
            then None else lookup2 cfg c' k')
         \<and> flat_store (staleStep os c k0 (Rec d0) cfg)
         \<and> fst ` set (staleStep os c k0 (Rec d0) cfg) = fst ` set cfg"
proof (cases "autoShutdown d0 \<and> (\<not> probe os (pid d0) \<or> status d0 \<noteq> Running)")
  case False
  then have "staleStep os c k0 (Rec d0) cfg = cfg"
    by (auto simp: staleStep_def autoShutdownTruthy_def statusRunning_def Let_def)
  with False fl show ?thesis by auto
next
  case True
  from mem obtain n where cn: "(c, n) \<in> set cfg" by force
  from flat_store_mem [OF fl cn] have p: "pathSegments c = [c]" and ne: "c \<noteq> []"
    and fp: "flat_partition n" and m: "map_of cfg c = Some n" by simp_all
  from flat_partition_Dir [OF fp] obtain ys where n: "n = Dir ys"
    and ar: "\<forall>k n'. (k, n') \<in> set ys \<longrightarrow> (\<exists>d. n' = Rec d)" by blast
  have g: "getProperty cfg (pathSegments c) = Some (Dir ys)" using p m n by simp
  have nd: "\<And>zs. map_of ys k0 \<noteq> Some (Dir zs)"
  proof
    fix zs assume "map_of ys k0 = Some (Dir zs)"
    then have "(k0, Dir zs) \<in> set ys" by (rule map_of_SomeD)
    with ar show False by blast
  qed
  have e: "staleStep os c k0 (Rec d0) cfg = config_set cfg c (obj_delete k0 (config_get cfg c))"
    using True by (auto simp: staleStep_def autoShutdownTruthy_def statusRunning_def Let_def)
  have "lookup2 (staleStep os c k0 (Rec d0) cfg) c' k' =
           (if c' = c \<and> k' = k0 \<and> autoShutdown d0 \<and> (\<not> probe os (pid d0) \<or> status d0 \<noteq> Running)
            then None else lookup2 cfg c' k')"
    using True by (simp add: e config_delete_existing [OF g nd])
  moreover have "flat_store (staleStep os c k0 (Rec d0) cfg)"
    using fl p ne
    by (simp add: e config_set_plain flat_store_obj_set flat_partition_obj_delete
        flat_config_get_partition)
  moreover have "fst ` set (staleStep os c k0 (Rec d0) cfg) = fst ` set cfg"
    using mem p by (auto simp: e config_set_plain fst_set_obj_set)
  ultimately show ?thesis by simp
qed

lemma staleInner_flat:
  assumes "flat_store cfg" and "c \<in> fst ` set cfg"
    and "\<And>k n. (k, n) \<in> set es \<Longrightarrow> \<exists>d. n = Rec d"
  shows "lookup2 (staleInner os c es cfg) c' k' =
           (if c' = c \<and> (\<exists>d. (k', Rec d) \<in> set es \<and> autoShutdown d
                  \<and> (\<not> probe os (pid d) \<or> status d \<noteq> Running))
            then None else lookup2 cfg c' k')
         \<and> flat_store (staleInner os c es cfg)
         \<and> fst ` set (staleInner os c es cfg) = fst ` set cfg"
  using assms
proof (induction es arbitrary: cfg)
  case Nil
  then show ?case by simp
next
  case (Cons a rest)
  obtain k0 n0 where a: "a = (k0, n0)" by (cases a)
  have "(k0, n0) \<in> set (a # rest)" by (simp add: a)
  from Cons.prems(3) [OF this] obtain d0 where n0: "n0 = Rec d0" by auto
  define cfg1 where "cfg1 = staleStep os c k0 (Rec d0) cfg"
  have "lookup2 (staleStep os c k0 (Rec d0) cfg) c' k' =
           (if c' = c \<and> k' = k0 \<and> autoShutdown d0 \<and> (\<not> probe os (pid d0) \<or> status d0 \<noteq> Running)
            then None else lookup2 cfg c' k')
         \<and> flat_store (staleStep os c k0 (Rec d0) cfg)
         \<and> fst ` set (staleStep os c k0 (Rec d0) cfg) = fst ` set cfg"
    by (rule staleStep_flat [OF Cons.prems(1,2)])
  then have s1: "lookup2 cfg1 c' k' =
           (if c' = c \<and> k' = k0 \<and> autoShutdown d0 \<and> (\<not> probe os (pid d0) \<or> status d0 \<noteq> Running)
            then None else lookup2 cfg c' k')"
    and f1: "flat_store cfg1" and k1: "fst ` set cfg1 = fst ` set cfg"
    by (simp_all add: cfg1_def)
  from Cons.prems(2) k1 have m1: "c \<in> fst ` set cfg1" by simp
  have r1: "\<And>k n. (k, n) \<in> set rest \<Longrightarrow> \<exists>d. n = Rec d"
  proof -
    fix k n assume "(k, n) \<in> set rest"
    then have "(k, n) \<in> set (a # rest)" by simp
    then show "\<exists>d. n = Rec d" by (rule Cons.prems(3))
  qed
  from Cons.IH [OF f1 m1 r1]
  have ih: "lookup2 (staleInner os c rest cfg1) c' k' =
           (if c' = c \<and> (\<exists>d. (k', Rec d) \<in> set rest \<and> autoShutdown d
                  \<and> (\<not> probe os (pid d) \<or> status d \<noteq> Running))
            then None else lookup2 cfg1 c' k')"
    and f2: "flat_store (staleInner os c rest cfg1)"
    and k2: "fst ` set (staleInner os c rest cfg1) = fst ` set cfg1"
    by simp_all
  have e: "staleInner os c (a # rest) cfg = staleInner os c rest cfg1"
    by (simp add: a n0 cfg1_def)
  have "lookup2 (staleInner os c (a # rest) cfg) c' k' =
           (if c' = c \<and> (\<exists>d. (k', Rec d) \<in> set (a # rest) \<and> autoShutdown d
                  \<and> (\<not> probe os (pid d) \<or> status d \<noteq> Running))
            then None else lookup2 cfg c' k')"
    unfolding e ih s1 by (auto simp: a n0)
  with f2 k2 k1 show ?case by (simp add: e)
qed

lemma staleOuter_flat:
  assumes "flat_store cfg"
    and "\<And>c n. (c, n) \<in> set snap \<Longrightarrow> c \<in> fst ` set cfg \<and> flat_partition n"
  shows "lookup2 (staleOuter os snap cfg) c' k' =
           (if (\<exists>ys d. (c', Dir ys) \<in> set snap \<and> (k', Rec d) \<in> set ys \<and> autoShutdown d
                  \<and> (\<not> probe os (pid d) \<or> status d \<noteq> Running))
            then None else lookup2 cfg c' k')
         \<and> flat_store (staleOuter os snap cfg)"
  using assms
proof (induction snap arbitrary: cfg)
  case Nil
  then show ?case by simp
next
  case (Cons a rest)
  obtain c0 n0 where a: "a = (c0, n0)" by (cases a)
  have "(c0, n0) \<in> set (a # rest)" by (simp add: a)
  from Cons.prems(2) [OF this] have m0: "c0 \<in> fst ` set cfg" and fp: "flat_partition n0"
    by simp_all
  from flat_partition_Dir [OF fp] obtain ys0 where n0: "n0 = Dir ys0"
    and ar: "\<forall>k n'. (k, n') \<in> set ys0 \<longrightarrow> (\<exists>d. n' = Rec d)" by blast
  define cfg1 where "cfg1 = staleInner os c0 ys0 cfg"
  have ar': "\<And>k n. (k, n) \<in> set ys0 \<Longrightarrow> \<exists>d. n = Rec d" using ar by blast
  have "lookup2 (staleInner os c0 ys0 cfg) c' k' =
           (if c' = c0 \<and> (\<exists>d. (k', Rec d) \<in> set ys0 \<and> autoShutdown d
                  \<and> (\<not> probe os (pid d) \<or> status d \<noteq> Running))
            then None else lookup2 cfg c' k')
         \<and> flat_store (staleInner os c0 ys0 cfg)
         \<and> fst ` set (staleInner os c0 ys0 cfg) = fst ` set cfg"
    by (rule staleInner_flat [OF Cons.prems(1) m0 ar'])
  then have s1: "lookup2 cfg1 c' k' =
           (if c' = c0 \<and> (\<exists>d. (k', Rec d) \<in> set ys0 \<and> autoShutdown d
                  \<and> (\<not> probe os (pid d) \<or> status d \<noteq> Running))
            then None else lookup2 cfg c' k')"
    and f1: "flat_store cfg1" and k1: "fst ` set cfg1 = fst ` set cfg"
    by (simp_all add: cfg1_def)
  have r1: "\<And>c n. (c, n) \<in> set rest \<Longrightarrow> c \<in> fst ` set cfg1 \<and> flat_partition n"
  proof -
    fix c n assume "(c, n) \<in> set rest"
    then have "(c, n) \<in> set (a # rest)" by simp
    from Cons.prems(2) [OF this] k1 show "c \<in> fst ` set cfg1 \<and> flat_partition n" by simp
  qed
  from Cons.IH [OF f1 r1]
  have ih: "lookup2 (staleOuter os rest cfg1) c' k' =
           (if (\<exists>ys d. (c', Dir ys) \<in> set rest \<and> (k', Rec d) \<in> set ys \<and> autoShutdown d
                  \<and> (\<not> probe os (pid d) \<or> status d \<noteq> Running))
            then None else lookup2 cfg1 c' k')"
    and f2: "flat_store (staleOuter os rest cfg1)"
    by simp_all
  have e: "staleOuter os (a # rest) cfg = staleOuter os rest cfg1"
    by (simp add: a n0 cfg1_def entriesOf_def)
  have "lookup2 (staleOuter os (a # rest) cfg) c' k' =
           (if (\<exists>ys d. (c', Dir ys) \<in> set (a # rest) \<and> (k', Rec d) \<in> set ys \<and> autoShutdown d
                  \<and> (\<not> probe os (pid d) \<or> status d \<noteq> Running))
            then None else lookup2 cfg c' k')"
    unfolding e ih s1 by (auto simp: a n0)
  with f2 show ?case by (simp add: e)
qed

text \<open>
  On a flat registry the constructor's clean-up deletes exactly the records with
  \<open>autoShutdown\<close> set whose probe fails or whose status is not running, in every
  partition, and leaves the registry flat.
\<close>

lemma cleanupStale_flat_effect:
  assumes fl: "flat_store (config m)"
  shows "lookup2 (config (cleanupStaleAutoShutdownProcesses os m)) c k =
           (case lookup2 (config m) c k of
              None \<Rightarrow> None
            | Some d \<Rightarrow>
                if autoShutdown d \<and> (\<not> probe os (pid d) \<or> status d \<noteq> Running)
                then None else Some d)"
    and "flat_store (config (cleanupStaleAutoShutdownProcesses os m))"
proof -
  have snap: "\<And>c n. (c, n) \<in> set (config m) \<Longrightarrow> c \<in> fst ` set (config m) \<and> flat_partition n"
  proof -
    fix c n assume cn: "(c, n) \<in> set (config m)"
    then have "c \<in> fst ` set (config m)" by force
    with flat_store_mem [OF fl cn] show "c \<in> fst ` set (config m) \<and> flat_partition n" by simp
  qed
  have mem: "\<And>d. (\<exists>ys. (c, Dir ys) \<in> set (config m) \<and> (k, Rec d) \<in> set ys)
               = (lookup2 (config m) c k = Some d)"
    by (simp add: flat_lookup2 [OF fl])
  have so: "lookup2 (staleOuter os (config m) (config m)) c k =
           (if (\<exists>ys d. (c, Dir ys) \<in> set (config m) \<and> (k, Rec d) \<in> set ys \<and> autoShutdown d
                  \<and> (\<not> probe os (pid d) \<or> status d \<noteq> Running))
            then None else lookup2 (config m) c k)
         \<and> flat_store (staleOuter os (config m) (config m))"
    by (rule staleOuter_flat [OF fl snap])
  show "flat_store (config (cleanupStaleAutoShutdownProcesses os m))"
    using so by (simp add: cleanupStaleAutoShutdownProcesses_def)
  have l: "lookup2 (staleOuter os (config m) (config m)) c k =
           (if (\<exists>ys d. (c, Dir ys) \<in> set (config m) \<and> (k, Rec d) \<in> set ys \<and> autoShutdown d
                  \<and> (\<not> probe os (pid d) \<or> status d \<noteq> Running))
            then None else lookup2 (config m) c k)"
    using so by simp
  have "(\<exists>ys d. (c, Dir ys) \<in> set (config m) \<and> (k, Rec d) \<in> set ys \<and> autoShutdown d
                  \<and> (\<not> probe os (pid d) \<or> status d \<noteq> Running))
        = (\<exists>d. lookup2 (config m) c k = Some d \<and> autoShutdown d
                  \<and> (\<not> probe os (pid d) \<or> status d \<noteq> Running))"
    using mem by blast
  then show "lookup2 (config (cleanupStaleAutoShutdownProcesses os m)) c k =
           (case lookup2 (config m) c k of
              None \<Rightarrow> None
            | Some d \<Rightarrow>
                if autoShutdown d \<and> (\<not> probe os (pid d) \<or> status d \<noteq> Running)
                then None else Some d)"
    by (simp add: cleanupStaleAutoShutdownProcesses_def l split: option.splits)
qed

lemma flat_newManager:
  "flat_store store \<Longrightarrow> flat_store (config (newManager os store cwdArg envC processCwd logs))"
  by (simp add: newManager_def cleanupStale_flat_effect(2))

subsection \<open>Well-formed documents stay well-formed\<close>

text \<open>
  The theorems on \<open>checkProcessHealth\<close> and \<open>cleanup\<close> assume \<open>wf_config\<close>. It holds of
  the empty store; \<open>checkProcessHealth\<close> and \<open>cleanup\<close> keep it, and so does
  \<open>startProcess\<close> for a manager none of whose directory pieces is \<^verbatim>\<open>autoShutdown\<close>.
\<close>

lemma wf_node_iff:
  "wf_node (Dir xs) = (distinct (map fst xs) \<and> (\<forall>n. (''autoShutdown'', n) \<notin> set xs)
      \<and> (\<forall>k n. (k, n) \<in> set xs \<longrightarrow> wf_node n))"
proof -
  have a: "(''autoShutdown'' \<notin> fst ` set xs) = (\<forall>n. (''autoShutdown'', n) \<notin> set xs)" by force
  have b: "(\<forall>e\<in>set xs. wf_node (snd e)) = (\<forall>k n. (k, n) \<in> set xs \<longrightarrow> wf_node n)" by force
  show ?thesis by (simp add: list_all_iff a b)
qed

lemma wf_obj_set:
  assumes "wf_node (Dir xs)" "wf_node v" "s \<noteq> ''autoShutdown''"
  shows "wf_node (Dir (obj_set xs s v))"
proof -
  have a: "distinct (map fst xs)" "\<And>n. (''autoShutdown'', n) \<notin> set xs"
    "\<And>k n. (k, n) \<in> set xs \<Longrightarrow> wf_node n"
    using assms(1) unfolding wf_node_iff by blast+
  have m: "\<And>k n. (k, n) \<in> set (obj_set xs s v) \<Longrightarrow> (k, n) = (s, v) \<or> (k, n) \<in> set xs"
    using set_obj_set [of xs s v] by blast
  have "\<And>k n. (k, n) \<in> set (obj_set xs s v) \<Longrightarrow> wf_node n"
    using m a(3) assms(2) by blast
  moreover have "\<And>n. (''autoShutdown'', n) \<notin> set (obj_set xs s v)"
    using m a(2) assms(3) by blast
  ultimately show ?thesis using a(1) by (simp only: wf_node_iff distinct_obj_set) blast
qed

lemma wf_obj_delete:
  assumes "wf_node (Dir xs)"
  shows "wf_node (Dir (obj_delete k xs))"
proof -
  have a: "distinct (map fst xs)" "\<And>n. (''autoShutdown'', n) \<notin> set xs"
    "\<And>k n. (k, n) \<in> set xs \<Longrightarrow> wf_node n"
    using assms unfolding wf_node_iff by blast+
  have m: "\<And>k' n. (k', n) \<in> set (obj_delete k xs) \<Longrightarrow> (k', n) \<in> set xs"
    using set_obj_delete [of k xs] by blast
  have "\<And>k' n. (k', n) \<in> set (obj_delete k xs) \<Longrightarrow> wf_node n"
    using m a(3) by blast
  moreover have "\<And>n. (''autoShutdown'', n) \<notin> set (obj_delete k xs)"
    using m a(2) by blast
  ultimately show ?thesis using a(1) by (simp only: wf_node_iff distinct_obj_delete) blast
qed

lemma wf_setProperty:
  assumes "wf_node (Dir xs)" "wf_node v" "''autoShutdown'' \<notin> set P"
  shows "wf_node (Dir (setProperty xs P v))"
  using assms
proof (induction xs P v rule: setProperty.induct)
  case (1 xs v)
  then show ?case by simp
next
  case (2 xs s v)
  then have "s \<noteq> ''autoShutdown''" by auto
  with 2 show ?case by (simp add: wf_obj_set del: wf_node.simps(2))
next
  case (3 xs s t rest v)
  define ys where "ys = (case map_of xs s of Some (Dir ys) \<Rightarrow> ys | _ \<Rightarrow> [])"
  have w: "wf_node (Dir ys)"
  proof (cases "\<exists>zs. map_of xs s = Some (Dir zs)")
    case True
    then obtain zs where z: "map_of xs s = Some (Dir zs)" by blast
    from wf_node_map_of [OF "3.prems"(1) z] z show ?thesis by (simp add: ys_def)
  next
    case False
    then have "ys = []" by (auto simp: ys_def split: option.splits node.splits)
    then show ?thesis by simp
  qed
  from "3.prems"(3) have ne: "s \<noteq> ''autoShutdown''" and r: "''autoShutdown'' \<notin> set (t # rest)"
    by auto
  have "wf_node (Dir (setProperty ys (t # rest) v))"
    using "3.IH" w "3.prems"(2) r by (simp add: ys_def del: wf_node.simps(2))
  from wf_obj_set [OF "3.prems"(1) this ne] show ?case by (simp add: ys_def del: wf_node.simps(2))
qed

lemma wf_config_set:
  assumes "wf_config cfg" "wf_node (Dir ys)" "''autoShutdown'' \<notin> set (pathSegments t)"
  shows "wf_config (config_set cfg t ys)"
  using assms unfolding wf_config_def config_set_def by (rule wf_setProperty)

lemma wf_config_get: "wf_config cfg \<Longrightarrow> wf_node (Dir (config_get cfg t))"
proof -
  assume wf: "wf_config cfg"
  show ?thesis
  proof (cases "getProperty cfg (pathSegments t)")
    case None
    then show ?thesis by (simp add: config_get_def)
  next
    case (Some n)
    from wf have "wf_node (Dir cfg)" by (simp add: wf_config_def)
    from wf_getProperty [OF this Some] have w: "wf_node n" .
    show ?thesis
    proof (cases n)
      case (Rec d)
      with Some show ?thesis by (simp add: config_get_def entriesOf_def)
    next
      case (Dir ys)
      with Some w show ?thesis by (simp add: config_get_def entriesOf_def del: wf_node.simps(2))
    qed
  qed
qed

lemma wf_path_exists:
  assumes "wf_node (Dir xs)" "getProperty xs P = Some n"
  shows "''autoShutdown'' \<notin> set P"
  using assms
proof (induction xs P rule: getProperty.induct)
  case (1 xs)
  then show ?case by simp
next
  case (2 xs s)
  from "2.prems"(2) have "(s, n) \<in> set xs" by (auto dest: map_of_SomeD)
  with "2.prems"(1) have "s \<noteq> ''autoShutdown''" unfolding wf_node_iff by blast
  then show ?case by simp
next
  case (3 xs s t rest)
  from "3.prems"(2) obtain ys where m: "map_of xs s = Some (Dir ys)"
    and g: "getProperty ys (t # rest) = Some n"
    by (auto split: option.splits node.splits)
  from m have "(s, Dir ys) \<in> set xs" by (rule map_of_SomeD)
  with "3.prems"(1) have ne: "s \<noteq> ''autoShutdown''" unfolding wf_node_iff by blast
  from "3.prems"(1) m have "wf_node (Dir ys)" by (rule wf_node_map_of)
  with "3.IH" [OF m] g have "''autoShutdown'' \<notin> set (t # rest)" by simp
  with ne show ?case by simp
qed

lemma wf_snapshot_path:
  assumes wf: "wf_config cfg" and ne: "config_get cfg t \<noteq> []"
  shows "''autoShutdown'' \<notin> set (pathSegments t)"
proof -
  from ne obtain n where g: "getProperty cfg (pathSegments t) = Some n"
    by (cases "getProperty cfg (pathSegments t)") (auto simp: config_get_def)
  from wf have "wf_node (Dir cfg)" by (simp add: wf_config_def)
  from wf_path_exists [OF this g] show ?thesis .
qed

lemma wf_removeProcessData:
  assumes "wf_config (config m)" "''autoShutdown'' \<notin> set (pathSegments (targetCwd m co))"
  shows "wf_config (config (removeProcessData m k co))"
  using assms
  by (simp add: removeProcessData_def Let_def wf_config_set wf_obj_delete wf_config_get
      del: wf_node.simps(2))

lemma wf_storeProcessData:
  assumes "wf_config (config m)" "''autoShutdown'' \<notin> set (pathSegments (targetCwd m co))"
    "k \<noteq> ''autoShutdown''"
  shows "wf_config (config (storeProcessData m k d co))"
  using assms
  by (simp add: storeProcessData_def Let_def wf_config_set wf_obj_set wf_config_get
      del: wf_node.simps(2))

lemma wf_updateProcessData:
  assumes wf: "wf_config (config m)"
  shows "wf_config (config (updateProcessData m k d co))"
proof (cases "map_of (config_get (config m) (targetCwd m co)) k")
  case None
  with wf show ?thesis by (simp add: updateProcessData_def Let_def)
next
  case (Some n)
  then have ne: "config_get (config m) (targetCwd m co) \<noteq> []" by auto
  from Some have "(k, n) \<in> set (config_get (config m) (targetCwd m co))" by (rule map_of_SomeD)
  with wf_config_get [OF wf, of "targetCwd m co"]
  have k: "k \<noteq> ''autoShutdown''" unfolding wf_node_iff by blast
  from wf wf_snapshot_path [OF wf ne] k show ?thesis
    by (simp add: updateProcessData_def Let_def wf_config_set wf_obj_set wf_config_get
        del: wf_node.simps(2))
qed

lemma generateProcessKey_not_autoShutdown: "generateProcessKey cmd now \<noteq> ''autoShutdown''"
proof
  assume "generateProcessKey cmd now = ''autoShutdown''"
  then have "CHR ''_'' \<in> set ''autoShutdown''"
    by (metis generateProcessKey_def in_set_conv_decomp append_Cons append_Nil)
  then show False by simp
qed

lemma wf_startProcess:
  assumes wf: "wf_config (config m)"
    and p: "''autoShutdown'' \<notin> set (pathSegments (currentCwd m))"
  shows "wf_config (config (fst (startProcess env m cmd autoSd cwdArg)))"
proof (cases "snd (startProcess env m cmd autoSd cwdArg)")
  case (Inl e)
  then have "startProcess env m cmd autoSd cwdArg = (fst (startProcess env m cmd autoSd cwdArg), Inl e)"
    by (simp add: prod_eq_iff)
  from startProcess_Inl [OF this] wf show ?thesis by simp
next
  case (Inr q)
  then have "startProcess env m cmd autoSd cwdArg = (fst (startProcess env m cmd autoSd cwdArg), Inr q)"
    by (simp add: prod_eq_iff)
  from startProcess_Inr [OF this]
  have "fst (startProcess env m cmd autoSd cwdArg) =
      fst (finishStart env m (generateProcessKey cmd (nowKey env)) cmd
          (workingDir env m cwdArg) autoSd q
          (if autoSd then getLogFilePath m q else getLogFilePath m (nowTemp env)))"
    by (metis fst_conv)
  moreover have "wf_config (config (fst (finishStart env m (generateProcessKey cmd (nowKey env)) cmd
          (workingDir env m cwdArg) autoSd q lf)))" for lf
    using wf p
    by (simp add: finishStart_def Let_def wf_storeProcessData targetCwd_None
        generateProcessKey_not_autoShutdown)
  ultimately show ?thesis by simp
qed

lemma wf_cleanupLoop:
  assumes "wf_config (config m)"
    and "es \<noteq> [] \<Longrightarrow> ''autoShutdown'' \<notin> set (pathSegments (currentCwd m))"
  shows "wf_config (config (cleanupLoop os es m))"
  using assms
proof (induction es arbitrary: m)
  case Nil
  then show ?case by simp
next
  case (Cons a rest)
  obtain k0 n0 where a: "a = (k0, n0)" by (cases a)
  from Cons.prems(2) have p: "''autoShutdown'' \<notin> set (pathSegments (currentCwd m))" by simp
  have "wf_config (config (cleanupStep os k0 n0 m))"
    using Cons.prems(1) p
    by (simp add: cleanupStep_def wf_removeProcessData targetCwd_None)
  moreover have "''autoShutdown'' \<notin> set (pathSegments (currentCwd (cleanupStep os k0 n0 m)))"
    using p by (simp add: currentCwd_cleanupStep)
  ultimately show ?case using Cons.IH [of "cleanupStep os k0 n0 m"] by (simp add: a)
qed

lemma wf_cleanup:
  assumes wf: "wf_config (config m)"
  shows "wf_config (config (cleanup os m))"
  unfolding cleanup_def getCurrentCwdProcesses_def
  using wf_snapshot_path [OF wf, of "currentCwd m"]
  by (intro wf_cleanupLoop [OF wf]) simp

lemma wf_healthLoop:
  assumes "wf_config (config m)"
  shows "wf_config (config (healthLoop os es m))"
  using assms
proof (induction es arbitrary: m)
  case Nil
  then show ?case by simp
next
  case (Cons a rest)
  obtain k0 n0 where a: "a = (k0, n0)" by (cases a)
  have "wf_config (config (healthStep os k0 n0 m))"
    using Cons.prems
    by (cases n0) (simp_all add: healthStep_def Let_def wf_updateProcessData)
  with Cons.IH show ?case by (simp add: a)
qed

lemma wf_checkProcessHealth:
  "wf_config (config m) \<Longrightarrow> wf_config (config (checkProcessHealth os m))"
  by (simp add: checkProcessHealth_def wf_healthLoop)

section \<open>Stop: the result of endProcess\<close>




section \<open>Stop: the record is deleted\<close>

text \<open>
  C2, as the code has it. The claim lets \<open>endProcess\<close> find the record of a pid in any
  partition and delete it. A manager rooted at \<open>/home/u/proj.v2\<close> starts \<^verbatim>\<open>sleep 1\<close> and gets
  pid 4321. \<open>storeProcessData\<close> writes the record with \<^verbatim>\<open>config.set\<close>, which reads the
  directory in dot notation and puts the record under \<open>/home/u/proj\<close>, \<open>v2\<close> (the
  document is \<open>store_dotted\<close>); the manager reads it back under its directory. \<open>endProcess\<close> enumerates the top-level keys of
  \<^verbatim>\<open>config.store\<close>: under \<open>/home/u/proj\<close> it sees the entry \<open>v2\<close>, which has no pid. So
  for pid 4321 it returns false, whatever the operating system would answer, and the
  manager, its registry included, is as before: the record is neither found nor
  deleted. (On a flat registry the first record with the pid is deleted and nothing
  else changes: lemma \<open>endProcess_flat_deletes\<close>. A record under a top-level key that
  itself contains a dot is found but not deleted: lemma \<open>endProcess_dotted_key\<close>.)
\<close>

theorem endProcess_dotted_directory:
  "startProcess env_spawned mgr_dotted ''sleep 1'' True None = (mgr_dotted_started, Inr 4321)
   \<and> currentCwd mgr_dotted_started = ''/home/u/proj.v2''
   \<and> config mgr_dotted_started = store_dotted
   \<and> lookup2 (config mgr_dotted_started) ''/home/u/proj.v2'' ''sleep 1_1700000000000''
        = Some rec_dotted
   \<and> pid rec_dotted = 4321
   \<and> endProcess os mgr_dotted_started 4321 = (mgr_dotted_started, False)"
proof -
  have "findByPid 4321 (config mgr_dotted_started) = None"
    by (simp add: config_mgr_dotted_started store_dotted_def entriesOf_def)
  then have "endProcess os mgr_dotted_started 4321 = (mgr_dotted_started, False)"
    by (simp add: endProcess_def)
  moreover have "currentCwd mgr_dotted_started = ''/home/u/proj.v2''"
    by (simp add: mgr_dotted_started_def startProcess_eval env_spawned_def mgr_dotted_def)
  moreover have "lookup2 (config mgr_dotted_started) ''/home/u/proj.v2'' ''sleep 1_1700000000000''
        = Some rec_dotted"
    by (simp add: config_mgr_dotted_started store_dotted_def store_eval)
  moreover have "pid rec_dotted = 4321" by (simp add: rec_dotted_def)
  ultimately show ?thesis using started_mgr_dotted config_mgr_dotted_started by simp
qed

section \<open>CheckHealth\<close>




section \<open>Startup reconciliation\<close>

text \<open>
  C5, as the code has it. The claim lets \<open>cleanupStaleAutoShutdownProcesses\<close>, which the
  constructor runs once, delete every record with \<open>autoShutdown\<close> set whose probe fails,
  in every partition. The registry left by the manager rooted at \<open>/home/u/proj.v2\<close> holds
  the record of pid 4321 with \<open>autoShutdown\<close> set, nested under \<open>/home/u/proj\<close>, \<open>v2\<close>.
  The loop enumerates the top-level keys of \<^verbatim>\<open>config.store\<close>: the entry \<open>v2\<close> it sees
  under \<open>/home/u/proj\<close> has no \<^verbatim>\<open>autoShutdown\<close> property and is skipped, and the record
  below it is never visited. With pid 4321 dead, the constructor of the next manager
  leaves the registry as it is, and that manager still reads the record under its
  directory. (On a flat registry the clean-up deletes exactly the records the claim
  names and no other: lemma \<open>cleanupStale_flat_effect\<close>. A record under a top-level key
  that itself contains a dot is visited but not deleted: lemma
  \<open>cleanupStale_dotted_key\<close>.)
\<close>

theorem cleanupStale_dotted_directory:
  "lookup2 (config mgr_dotted_started) ''/home/u/proj.v2'' ''sleep 1_1700000000000''
        = Some rec_dotted
   \<and> autoShutdown rec_dotted
   \<and> \<not> probe os_all_dead (pid rec_dotted)
   \<and> config (newManager os_all_dead (config mgr_dotted_started) None None
               ''/home/u/proj.v2'' ''/home/u/logs'') = config mgr_dotted_started
   \<and> lookup2 (config (newManager os_all_dead (config mgr_dotted_started) None None
               ''/home/u/proj.v2'' ''/home/u/logs''))
        ''/home/u/proj.v2'' ''sleep 1_1700000000000'' = Some rec_dotted"
proof -
  have l: "lookup2 (config mgr_dotted_started) ''/home/u/proj.v2'' ''sleep 1_1700000000000''
        = Some rec_dotted"
    by (simp add: config_mgr_dotted_started store_dotted_def store_eval)
  have n: "config (newManager os_all_dead (config mgr_dotted_started) None None
               ''/home/u/proj.v2'' ''/home/u/logs'') = config mgr_dotted_started"
    by (simp add: config_mgr_dotted_started store_dotted_def newManager_def
        cleanupStaleAutoShutdownProcesses_def staleStep_def autoShutdownTruthy_def entriesOf_def)
  have "autoShutdown rec_dotted \<and> \<not> probe os_all_dead (pid rec_dotted)"
    by (simp add: rec_dotted_def os_all_dead_def)
  with l n show ?thesis by simp
qed

section \<open>Cleanup\<close>



section \<open>Start: where the record is stored\<close>




section \<open>Start: the log file of the record\<close>

text \<open>
  C9: the log file path stored by a successful \<open>startProcess\<close>. For an attached process
  (\<open>autoShutdown\<close> set) it is \<open>getLogFilePath\<close> of the pid. For a detached process
  (\<open>autoShutdown\<close> unset) it is \<open>getLogFilePath\<close> of the timestamp taken before the spawn:
  the file is opened under that name before a pid exists, and the name is stored as it
  is. The claim's pid-derived path for persistent processes is not what is stored.
\<close>

theorem startProcess_logFile:
  assumes "startProcess env m cmd autoSd cwdArg = (m', Inr p)"
  shows "map_option logFile
           (lookup2 (config m') (currentCwd m) (generateProcessKey cmd (nowKey env)))
         = Some (Some (getLogFilePath m (if autoSd then p else nowTemp env)))"
proof -
  from startProcess_Inr [OF assms]
  have f: "finishStart env m (generateProcessKey cmd (nowKey env)) cmd
          (workingDir env m cwdArg) autoSd p
          (if autoSd then getLogFilePath m p else getLogFilePath m (nowTemp env)) = (m', Inr p)"
    by simp
  show ?thesis by (simp add: finishStart_lookup2 [OF f])
qed

theorem startProcess_logFile_witness:
  "startProcess env_spawned mgr_fresh ''sleep 60'' False None
     = (fst (startProcess env_spawned mgr_fresh ''sleep 60'' False None), Inr 4321)
   \<and> map_option logFile
        (lookup2 (config (fst (startProcess env_spawned mgr_fresh ''sleep 60'' False None)))
           ''/home/u/project'' ''sleep 60_1700000000000'')
       = Some (Some ''/home/u/logs/process_1700000000007.log'')
   \<and> getLogFilePath mgr_fresh 4321 = ''/home/u/logs/process_4321.log''"
proof -
  have e: "startProcess env_spawned mgr_fresh ''sleep 60'' False None
     = (fst (startProcess env_spawned mgr_fresh ''sleep 60'' False None), Inr 4321)"
    by (simp add: startProcess_eval env_spawned_def)
  have k: "generateProcessKey ''sleep 60'' (nowKey env_spawned) = ''sleep 60_1700000000000''"
    by (simp add: generateProcessKey_def show_int_eval env_spawned_def)
  have c: "currentCwd mgr_fresh = ''/home/u/project''" by (simp add: mgr_fresh_def)
  have t: "getLogFilePath mgr_fresh (nowTemp env_spawned) = ''/home/u/logs/process_1700000000007.log''"
    by (simp add: getLogFilePath_def path_join_def show_int_eval env_spawned_def mgr_fresh_def)
  have q: "getLogFilePath mgr_fresh 4321 = ''/home/u/logs/process_4321.log''"
    by (simp add: getLogFilePath_def path_join_def show_int_eval mgr_fresh_def)
  from startProcess_logFile [OF e] show ?thesis
    using e q by (simp add: k c t)
qed

section \<open>Start: failure leaves the state alone\<close>

text \<open>
  C10: when the spawn throws, or returns a child without a pid, \<open>startProcess\<close> fails and
  the manager is exactly as before: no record is inserted and no handle is retained.
  More generally every failing call leaves the manager unchanged, and a call that
  succeeds with pid \<open>p\<close> had a spawn that returned \<open>p\<close>: the record is stored only after
  a pid has been obtained.
\<close>

theorem startProcess_failure_keeps_state:
  shows "((\<exists>e. spawnResult env = SpawnThrew e) \<or> spawnResult env = Spawned None
            \<or> spawnResult env = Spawned (Some 0)
          \<longrightarrow> (\<exists>msg. startProcess env m cmd autoSd cwdArg = (m, Inl msg)))
       \<and> (\<forall>m' msg. startProcess env m cmd autoSd cwdArg = (m', Inl msg) \<longrightarrow> m' = m)
       \<and> (\<forall>m' p. startProcess env m cmd autoSd cwdArg = (m', Inr p)
             \<longrightarrow> spawnResult env = Spawned (Some p) \<and> p \<noteq> 0)"
proof -
  have "\<exists>msg. startProcess env m cmd autoSd cwdArg = (m, Inl msg)"
    if "(\<exists>e. spawnResult env = SpawnThrew e) \<or> spawnResult env = Spawned None
          \<or> spawnResult env = Spawned (Some 0)"
    using that startProcess_no_pid [of env _ m cmd autoSd cwdArg] by blast
  moreover have "\<forall>m' msg. startProcess env m cmd autoSd cwdArg = (m', Inl msg) \<longrightarrow> m' = m"
    using startProcess_Inl [of env m cmd autoSd cwdArg] by blast
  moreover have "\<forall>m' p. startProcess env m cmd autoSd cwdArg = (m', Inr p)
             \<longrightarrow> spawnResult env = Spawned (Some p) \<and> p \<noteq> 0"
    using startProcess_Inr [of env m cmd autoSd cwdArg] by blast
  ultimately show ?thesis by blast
qed

theorem startProcess_failure_keeps_state_witness:
  "spawnResult env_no_pid = Spawned None
   \<and> startProcess env_no_pid mgr_fresh ''sleep 60'' True None
       = (mgr_fresh, Inl ''Failed to start process: Error: Failed to start process: No PID returned'')
   \<and> config (fst (startProcess env_no_pid mgr_fresh ''sleep 60'' True None)) = []
   \<and> runningProcesses (fst (startProcess env_no_pid mgr_fresh ''sleep 60'' True None)) = {}"
proof -
  have s: "spawnResult env_no_pid = Spawned None" by (simp add: env_no_pid_def)
  from startProcess_failure_keeps_state [of env_no_pid mgr_fresh "''sleep 60''" True None] s
  obtain msg where m: "startProcess env_no_pid mgr_fresh ''sleep 60'' True None = (mgr_fresh, Inl msg)"
    by blast
  have "startProcess env_no_pid mgr_fresh ''sleep 60'' True None
       = (mgr_fresh, Inl ''Failed to start process: Error: Failed to start process: No PID returned'')"
    by (simp add: startProcess_def withPid_def startFailure_def noPidMessage_def Let_def env_no_pid_def)
  with s m show ?thesis by (simp add: mgr_fresh_def)
qed

section \<open>Logs\<close>

text \<open>
  C7: \<open>getProcessLogs\<close> on the log of ten lines. With \<open>tailLength = 5\<close> the result is the
  claim's: lines \<open>L6\<close> to \<open>L10\<close> joined by newlines. With \<open>tailLength = 0\<close> the last zero
  lines are no lines, but \<^verbatim>\<open>lines.slice(-0)\<close> is \<^verbatim>\<open>lines.slice(0)\<close> and the result is all ten
  lines. (For every positive \<open>tailLength\<close> the result is the last \<open>tailLength\<close> non-empty
  lines: lemma \<open>getProcessLogs_tail\<close>.)
\<close>

theorem getProcessLogs_zero:
  "getProcessLogs fs_log mgr_two 77 5 = join_with [newline] [''L6'', ''L7'', ''L8'', ''L9'', ''L10'']
   \<and> getProcessLogs fs_log mgr_two 77 0 = join_with [newline] ten_lines
   \<and> last_n 0 (nonEmptyLines log_text) = []"
  by (simp add: getProcessLogs_def findLogFile_two fs_log_def nonEmptyLines_log_text
      js_slice_from_def last_n_def) (simp add: ten_lines_def)

section \<open>Listing a directory and its subdirectories\<close>

text \<open>
  C8: which partitions \<open>getAllProcessesInDirectory\<close> includes. For the target \<open>/a\<close> the
  partition \<open>/a/b\<close> is included and \<open>/ab\<close> is not, as the claim says, and on paths in
  normal form below the root the test is exactly "equal or strictly below" (lemma
  \<open>shouldInclude_normal_form\<close>); without subdirectories only the equal partition is
  included (lemma \<open>shouldInclude_exact\<close>). For the target \<open>/\<close> the tested prefix is
  \<open>//\<close>: the partition \<open>/a\<close> lies below the root and is not included, so a manager
  rooted at \<open>/\<close> lists nothing of it.
\<close>

theorem root_listing:
  "shouldInclude True ''/a'' ''/a/b'' \<and> \<not> shouldInclude True ''/a'' ''/ab''
   \<and> is_descendant ''/a'' ''/a/b'' \<and> \<not> is_descendant ''/a'' ''/ab''
   \<and> is_descendant ''/'' ''/a'' \<and> \<not> shouldInclude True ''/'' ''/a''
   \<and> currentCwd mgr_root = ''/''
   \<and> lookup2 (config mgr_root) ''/a'' ''node api.js_1700000000100'' = Some rec_api
   \<and> getAllProcessesInDirectory mgr_root True = []"
  by (simp add: shouldInclude_def path_sep_def is_descendant_def segments_def
      getAllProcessesInDirectory_def mgr_root_def store_eval)

end
